theory Spec2Isabelle
  imports
    Complex_Main
    "HOL-Library.Word"
    "HOL-Library.FSet"
    "HOL-Library.AList"
    "HOL-Library.Sublist"
begin

unbundle bit_operations_syntax

section \<open>Python values\<close>

text \<open>
  A Python \<open>str\<close> is modelled as a \<open>string\<close>: a list of characters, each a code point
  below 256. A \<open>dict\<close> is an association list in insertion order, written to with
  \<open>AList.update\<close> (an existing key keeps its place, a new key goes last, as in Python) and
  read with \<open>map_of\<close>. Python's \<open>int\<close> is \<open>int\<close>. An exception is a value of \<open>error\<close>,
  returned as \<open>Inl\<close>.
\<close>

datatype error = IndexError | ValueError | KeyError

definition isspace :: "char \<Rightarrow> bool" where
  \<comment> \<open>\<open>str.isspace\<close>, which is also the class \<open>\s\<close> of \<open>re\<close> on a str pattern\<close>
  "isspace c = (let n = (of_char c :: nat) in
     (9 \<le> n \<and> n \<le> 13) \<or> (28 \<le> n \<and> n \<le> 32) \<or> n = 133 \<or> n = 160)"

definition strip :: "string \<Rightarrow> string" where
  \<comment> \<open>\<open>s.strip()\<close>\<close>
  "strip s = rev (dropWhile isspace (rev (dropWhile isspace s)))"

definition rstrip_char :: "char \<Rightarrow> string \<Rightarrow> string" where
  \<comment> \<open>\<open>s.rstrip(c)\<close> for a one-character argument\<close>
  "rstrip_char c s = rev (dropWhile (\<lambda>x. x = c) (rev s))"

fun join :: "string \<Rightarrow> string list \<Rightarrow> string" where
  \<comment> \<open>\<open>sep.join(xs)\<close>\<close>
  "join sep [] = []"
| "join sep [x] = x"
| "join sep (x # y # ys) = x @ sep @ join sep (y # ys)"

definition digit_char :: "nat \<Rightarrow> char" where
  "digit_char d = char_of (48 + d)"

function str_nat :: "nat \<Rightarrow> string" where
  "str_nat n = (if n < 10 then [digit_char n] else str_nat (n div 10) @ [digit_char (n mod 10)])"
  by pat_completeness auto
termination
  by (relation "measure id") auto

declare str_nat.simps [simp del]

definition str_int :: "int \<Rightarrow> string" where
  \<comment> \<open>\<open>str(i)\<close> for an int\<close>
  "str_int i = (if i < 0 then CHR ''-'' # str_nat (nat (- i)) else str_nat (nat i))"

function sub_spaces :: "string \<Rightarrow> string" where
  \<comment> \<open>\<open>re.sub(r"\s{2,}", " ", s)\<close>: each maximal run of two or more whitespace characters
      becomes one space; a single whitespace character stays as it is\<close>
  "sub_spaces [] = []"
| "sub_spaces (c # cs) =
     (if isspace c \<and> (case cs of [] \<Rightarrow> False | d # _ \<Rightarrow> isspace d)
      then CHR '' '' # sub_spaces (dropWhile isspace cs)
      else c # sub_spaces cs)"
  by pat_completeness auto
termination
  by (relation "measure length") (auto simp: less_Suc_eq_le length_dropWhile_le)

declare sub_spaces.simps(2) [simp del]

section \<open>The reference formatter (vancouver.py)\<close>

record Citation =
  pmid :: "string option"
  doi :: "string option"
  title :: string
  authors :: "string list"
  journal :: "string option"
  journal_iso_abbrev :: "string option"
  year :: "int option"
  volume :: "string option"
  issue :: "string option"
  pages :: "string option"
  publication_types :: "string list"
  url :: "string option"
  abstract :: "string option"

definition or_empty :: "string option \<Rightarrow> string" where
  \<comment> \<open>\<open>x or ""\<close> for an optional str\<close>
  "or_empty x = (case x of None \<Rightarrow> [] | Some s \<Rightarrow> s)"

definition format_authors :: "string list \<Rightarrow> string" where
  "format_authors as =
     (if as = [] then []
      else if length as \<le> 6 then join '', '' as @ ''.''
      else join '', '' (take 6 as) @ '', et al.'')"

definition year_block :: "Citation \<Rightarrow> string list" where
  \<comment> \<open>the \<open>if year:\<close> block: at most one part\<close>
  "year_block c =
     (let yr = (case year c of None \<Rightarrow> [] | Some y \<Rightarrow> if y = 0 then [] else str_int y);
          vol = or_empty (volume c);
          iss = or_empty (issue c);
          pgs = or_empty (pages c)
      in if yr \<noteq> [] then
           (let vol_issue =
                  (if iss \<noteq> [] then
                     (if vol \<noteq> [] then vol @ ''('' @ iss @ '')'' else ''('' @ iss @ '')'')
                   else vol)
            in if pgs \<noteq> [] then [yr @ '';'' @ vol_issue @ '':'' @ pgs @ ''.'']
               else [yr @ '';'' @ vol_issue @ ''.''])
         else [])"

definition other_parts :: "Citation \<Rightarrow> string list" where
  \<comment> \<open>what \<open>parts\<close> receives after the author segment: title, journal, year block, identifier\<close>
  "other_parts c =
     (let ttl = rstrip_char CHR ''.'' (title c);
          jrn = (case journal_iso_abbrev c of
                   Some s \<Rightarrow> if s \<noteq> [] then s else or_empty (journal c)
                 | None \<Rightarrow> or_empty (journal c));
          d = or_empty (doi c)
      in (if ttl \<noteq> [] then [ttl @ ''.''] else [])
         @ (if jrn \<noteq> [] then [jrn @ ''.''] else [])
         @ year_block c
         @ (if d \<noteq> [] then [''doi:'' @ d @ ''.'']
            else if or_empty (url c) \<noteq> [] then [or_empty (url c)] else []))"

definition reference_parts :: "Citation \<Rightarrow> string list" where
  \<comment> \<open>the list \<open>parts\<close> of \<open>format_vancouver_reference\<close>\<close>
  "reference_parts c =
     (let a = format_authors (authors c)
      in (if a \<noteq> [] then [a] else []) @ other_parts c)"

definition format_vancouver_reference :: "Citation \<Rightarrow> string" where
  "format_vancouver_reference c =
     strip (sub_spaces (join '' '' (filter (\<lambda>p. strip p \<noteq> []) (reference_parts c))))"


definition title_only :: "string \<Rightarrow> Citation" where
  \<comment> \<open>\<open>Citation(title=t)\<close>: every other field at its default\<close>
  "title_only t =
     \<lparr>pmid = None, doi = None, title = t, authors = [], journal = None,
      journal_iso_abbrev = None, year = None, volume = None, issue = None, pages = None,
      publication_types = [], url = None, abstract = None\<rparr>"

fun no_space_run :: "string \<Rightarrow> bool" where
  \<comment> \<open>no two whitespace characters stand next to each other\<close>
  "no_space_run (c # d # cs) = (\<not> (isspace c \<and> isspace d) \<and> no_space_run (d # cs))"
| "no_space_run cs = True"

section \<open>The placeholder scanner and the renumbering (vancouver.py)\<close>

text \<open>
  \<open>CITE_PATTERN = \{cite:(PMID|DOI):([^}]+)\}\<close>. The identifier is the longest run of
  characters other than the closing brace; it must not be empty and the brace must follow.
\<close>

definition strip_prefix :: "string \<Rightarrow> string \<Rightarrow> string option" where
  "strip_prefix p s = (if prefix p s then Some (drop (length p) s) else None)"

definition match_ident :: "string \<Rightarrow> (string \<times> string) option" where
  \<comment> \<open>\<open>([^}]+)\}\<close> at the start of \<open>s\<close>: the identifier and the text after the brace\<close>
  "match_ident s =
     (let ident = takeWhile (\<lambda>c. c \<noteq> CHR ''}'') s;
          rest = dropWhile (\<lambda>c. c \<noteq> CHR ''}'') s
      in if ident \<noteq> [] \<and> rest \<noteq> [] then Some (ident, tl rest) else None)"

definition cite_match :: "string \<Rightarrow> (string \<times> string \<times> string) option" where
  \<comment> \<open>\<open>CITE_PATTERN.match(s)\<close>: \<open>group(1)\<close>, \<open>group(2)\<close> and the text after the match\<close>
  "cite_match s =
     (case strip_prefix ''{cite:'' s of
        None \<Rightarrow> None
      | Some s1 \<Rightarrow>
          (case strip_prefix ''PMID:'' s1 of
             Some s2 \<Rightarrow> map_option (\<lambda>(i, r). (''PMID'', i, r)) (match_ident s2)
           | None \<Rightarrow>
               (case strip_prefix ''DOI:'' s1 of
                  Some s2 \<Rightarrow> map_option (\<lambda>(i, r). (''DOI'', i, r)) (match_ident s2)
                | None \<Rightarrow> None)))"

datatype piece = Lit char | Cite string string

function cite_scan :: "string \<Rightarrow> piece list" where
  \<comment> \<open>the left-to-right scan of \<open>CITE_PATTERN.sub\<close>: the matches, in order, and the
      characters between them\<close>
  "cite_scan [] = []"
| "cite_scan (c # cs) =
     (case cite_match (c # cs) of
        Some (kind, ident, rest) \<Rightarrow> Cite kind ident # cite_scan rest
      | None \<Rightarrow> Lit c # cite_scan cs)"
  by pat_completeness auto
termination
proof (relation "measure length")
  fix c :: char and cs x kind y ident rest
  assume "cite_match (c # cs) = Some x" and "(kind, y) = x" and "(ident, rest) = y"
  then have m: "cite_match (c # cs) = Some (kind, ident, rest)" by simp
  have sp: "length r \<le> length s" if "strip_prefix p s = Some r" for p s r
    using that by (auto simp: strip_prefix_def split: if_splits)
  have mi: "length r < length s" if "match_ident s = Some (i, r)" for s i r
  proof -
    let ?d = "dropWhile (\<lambda>c. c \<noteq> CHR ''}'') s"
    from that have "?d \<noteq> []" and "r = tl ?d"
      by (auto simp: match_ident_def Let_def split: if_splits)
    then have "length r < length ?d" by simp
    also have "\<dots> \<le> length s" by (rule length_dropWhile_le)
    finally show ?thesis .
  qed
  from m obtain s1 s2 where "strip_prefix ''{cite:'' (c # cs) = Some s1"
    and "length s2 \<le> length s1" and "match_ident s2 = Some (ident, rest)"
    by (auto simp: cite_match_def split: option.splits dest: sp)
  then have "length rest < length (c # cs)"
    using sp [of "''{cite:''" "c # cs" s1] mi [of s2 ident rest] by linarith
  then show "(rest, c # cs) \<in> measure length" by simp
qed simp_all

declare cite_scan.simps(2) [simp del]

type_synonym numbering = "(string \<times> int) list"

definition cite_key :: "string \<Rightarrow> string \<Rightarrow> string" where
  \<comment> \<open>\<open>_key\<close>\<close>
  "cite_key kind ident = kind @ '':'' @ strip ident"

definition marker :: "string \<Rightarrow> int \<Rightarrow> string" where
  "marker in_text_format num =
     (if in_text_format = ''bracket'' then ''['' @ str_int num @ '']''
      else ''('' @ str_int num @ '')'')"

definition repl :: "string \<Rightarrow> numbering \<Rightarrow> int \<Rightarrow> string \<Rightarrow> string
    \<Rightarrow> error + (string \<times> numbering \<times> int)" where
  \<comment> \<open>the callback of \<open>re_number_citations\<close>, on the two groups of one match\<close>
  "repl in_text_format key_to_num next_num kind ident =
     (let k = cite_key kind ident;
          (key_to_num', next_num') =
            (if map_of key_to_num k = None
             then (AList.update k next_num key_to_num, next_num + 1)
             else (key_to_num, next_num))
      in case map_of key_to_num' k of
           None \<Rightarrow> Inl KeyError
         | Some num \<Rightarrow> Inr (marker in_text_format num, key_to_num', next_num'))"

fun sub_pieces :: "string \<Rightarrow> piece list \<Rightarrow> numbering \<Rightarrow> int
    \<Rightarrow> error + (string \<times> numbering \<times> int)" where
  "sub_pieces fmt [] m n = Inr ([], m, n)"
| "sub_pieces fmt (Lit c # ps) m n =
     (case sub_pieces fmt ps m n of
        Inl e \<Rightarrow> Inl e
      | Inr (out, m', n') \<Rightarrow> Inr (c # out, m', n'))"
| "sub_pieces fmt (Cite kind ident # ps) m n =
     (case repl fmt m n kind ident of
        Inl e \<Rightarrow> Inl e
      | Inr (r, m1, n1) \<Rightarrow>
          (case sub_pieces fmt ps m1 n1 of
             Inl e \<Rightarrow> Inl e
           | Inr (out, m', n') \<Rightarrow> Inr (r @ out, m', n')))"

definition re_number_citations :: "string \<Rightarrow> numbering \<Rightarrow> int \<Rightarrow> string
    \<Rightarrow> error + (string \<times> numbering \<times> int)" where
  "re_number_citations text key_to_num next_num in_text_format =
     sub_pieces in_text_format (cite_scan text) key_to_num next_num"

record ReferencesSpec =
  style :: string
  max_count :: int
  in_text_format :: string
  allow_classic_exceptions :: int

record JournalSpec =
  journal_name :: string
  article_type :: string
  references :: ReferencesSpec

record CitationUse =
  citation :: Citation
  use_for :: "string list"
  priority :: int

record CitationPlan =
  plan_max_count :: int
  selected :: "CitationUse list"

definition section_order :: "bool \<Rightarrow> (string \<rightharpoonup> string) \<Rightarrow> string list" where
  "section_order include_abstract_citations drafts =
     (let order = [''Introduction'', ''Methods'', ''Results'', ''Discussion'', ''Conclusion'']
      in if include_abstract_citations \<and> drafts ''Abstract'' \<noteq> None
         then ''Abstract'' # order else order)"

fun number_sections :: "string \<Rightarrow> (string \<rightharpoonup> string) \<Rightarrow> string list
    \<Rightarrow> (string \<times> string) list \<Rightarrow> numbering \<Rightarrow> int
    \<Rightarrow> error + ((string \<times> string) list \<times> numbering \<times> int)" where
  \<comment> \<open>the loop \<open>for sec in order\<close>\<close>
  "number_sections fmt drafts [] numbered key_to_num next_num =
     Inr (numbered, key_to_num, next_num)"
| "number_sections fmt drafts (sec # secs) numbered key_to_num next_num =
     (case drafts sec of
        None \<Rightarrow> number_sections fmt drafts secs numbered key_to_num next_num
      | Some t \<Rightarrow>
          if t = [] \<or> strip t = []
          then number_sections fmt drafts secs numbered key_to_num next_num
          else
            (case re_number_citations (strip t) key_to_num next_num fmt of
               Inl e \<Rightarrow> Inl e
             | Inr (sec_text, key_to_num', next_num') \<Rightarrow>
                 number_sections fmt drafts secs (AList.update sec sec_text numbered)
                   key_to_num' next_num'))"

definition number_drafts :: "JournalSpec \<Rightarrow> (string \<rightharpoonup> string) \<Rightarrow> bool
    \<Rightarrow> error + ((string \<times> string) list \<times> numbering \<times> int)" where
  \<comment> \<open>the first half of \<open>number_drafts_and_build_references\<close>, up to the end of the loop\<close>
  "number_drafts jrnl drafts include_abstract_citations =
     number_sections (in_text_format (references jrnl)) drafts
       (section_order include_abstract_citations drafts) [] [] 1"

definition add_citation :: "Citation \<Rightarrow> (string \<times> Citation) list \<Rightarrow> (string \<times> Citation) list" where
  "add_citation c key_to_citation =
     (let k1 = (if or_empty (pmid c) \<noteq> []
                then AList.update (cite_key ''PMID'' (or_empty (pmid c))) c key_to_citation
                else key_to_citation)
      in if or_empty (doi c) \<noteq> []
         then AList.update (cite_key ''DOI'' (or_empty (doi c))) c k1
         else k1)"

definition key_to_citation_of :: "CitationPlan \<Rightarrow> (string \<times> Citation) list" where
  "key_to_citation_of plan = fold (\<lambda>cu. add_citation (citation cu)) (selected plan) []"

definition num_to_key_of :: "numbering \<Rightarrow> (int \<times> string) list" where
  "num_to_key_of key_to_num = fold (\<lambda>(key, num). AList.update num key) key_to_num []"

definition missing_entry :: "int \<Rightarrow> string \<Rightarrow> string" where
  "missing_entry num key =
     str_int num @ ''. '' @ key @ '' (Missing metadata; please fix in CitationPlan).''"

definition reference_entry :: "(int \<times> string) list \<Rightarrow> (string \<times> Citation) list \<Rightarrow> int
    \<Rightarrow> error + string" where
  \<comment> \<open>the body of \<open>for num in sorted(num_to_key.keys())\<close>\<close>
  "reference_entry num_to_key key_to_citation num =
     (case map_of num_to_key num of
        None \<Rightarrow> Inl KeyError
      | Some key \<Rightarrow>
          (case map_of key_to_citation key of
             Some c \<Rightarrow> Inr (str_int num @ ''. '' @ format_vancouver_reference c)
           | None \<Rightarrow> Inr (missing_entry num key)))"

fun map_result :: "('a \<Rightarrow> error + 'b) \<Rightarrow> 'a list \<Rightarrow> error + 'b list" where
  \<comment> \<open>a loop or comprehension that collects results and stops at the first exception\<close>
  "map_result f [] = Inr []"
| "map_result f (x # xs) =
     (case f x of
        Inl e \<Rightarrow> Inl e
      | Inr y \<Rightarrow> (case map_result f xs of Inl e \<Rightarrow> Inl e | Inr ys \<Rightarrow> Inr (y # ys)))"

definition build_references :: "numbering \<Rightarrow> CitationPlan \<Rightarrow> error + string list" where
  \<comment> \<open>the second half of \<open>number_drafts_and_build_references\<close>\<close>
  "build_references key_to_num plan =
     (let key_to_citation = key_to_citation_of plan;
          num_to_key = num_to_key_of key_to_num
      in map_result (reference_entry num_to_key key_to_citation) (sort (map fst num_to_key)))"

definition number_drafts_and_build_references :: "JournalSpec \<Rightarrow> (string \<rightharpoonup> string)
    \<Rightarrow> CitationPlan \<Rightarrow> bool \<Rightarrow> error + ((string \<times> string) list \<times> string list)" where
  "number_drafts_and_build_references jrnl drafts plan include_abstract_citations =
     (case number_drafts jrnl drafts include_abstract_citations of
        Inl e \<Rightarrow> Inl e
      | Inr (numbered, key_to_num, next_num) \<Rightarrow>
          (case build_references key_to_num plan of
             Inl e \<Rightarrow> Inl e
           | Inr refs \<Rightarrow> Inr (numbered, refs)))"

subsection \<open>What the renumbering is measured against\<close>

text \<open>
  The definitions of this subsection are not code of the repository: they name what the
  statements about the renumbering speak of (the identities a text holds, their order of
  first appearance, a text rewritten under one fixed numbering, the record of the pool an
  identity stands for).
\<close>

fun piece_keys :: "piece list \<Rightarrow> string list" where
  \<comment> \<open>the placeholder identities of a scanned text, one per occurrence, in order\<close>
  "piece_keys [] = []"
| "piece_keys (Lit c # ps) = piece_keys ps"
| "piece_keys (Cite kind ident # ps) = cite_key kind ident # piece_keys ps"

definition first_occurrences :: "'a list \<Rightarrow> 'a list" where
  \<comment> \<open>every element once, in the order of its first occurrence\<close>
  "first_occurrences xs = rev (remdups (rev xs))"

fun render :: "string \<Rightarrow> numbering \<Rightarrow> piece list \<Rightarrow> string" where
  \<comment> \<open>a scanned text with each placeholder replaced by the marker of the number that
      \<open>m\<close> binds to its identity\<close>
  "render fmt m [] = []"
| "render fmt m (Lit c # ps) = c # render fmt m ps"
| "render fmt m (Cite kind ident # ps) =
     (case map_of m (cite_key kind ident) of Some num \<Rightarrow> marker fmt num | None \<Rightarrow> [])
     @ render fmt m ps"

definition section_texts :: "(string \<rightharpoonup> string) \<Rightarrow> string list \<Rightarrow> (string \<times> string) list" where
  \<comment> \<open>the sections of \<open>secs\<close> that the loop processes, each with its stripped text\<close>
  "section_texts drafts secs =
     concat (map (\<lambda>sec. case drafts sec of
                           None \<Rightarrow> []
                         | Some t \<Rightarrow> if t = [] \<or> strip t = [] then [] else [(sec, strip t)]) secs)"

definition text_keys :: "(string \<times> string) list \<Rightarrow> string list" where
  \<comment> \<open>the identities of a list of section texts, in scanning order\<close>
  "text_keys texts = concat (map (\<lambda>(sec, t). piece_keys (cite_scan t)) texts)"

definition numbering_of :: "numbering \<Rightarrow> int \<Rightarrow> string list \<Rightarrow> bool" where
  \<comment> \<open>\<open>m\<close> numbers the identities seen so far \<open>1, 2, ...\<close> in the order of their first
      occurrence, and \<open>n\<close> is the next free number\<close>
  "numbering_of m n seen =
     (map fst m = first_occurrences seen \<and> map snd m = [1..int (length m)] \<and> n = int (length m) + 1)"

definition rendered :: "string \<Rightarrow> numbering \<Rightarrow> (string \<times> string) list \<Rightarrow> (string \<times> string) list" where
  "rendered fmt m texts = map (\<lambda>(sec, t). (sec, render fmt m (cite_scan t))) texts"

definition cites :: "Citation \<Rightarrow> string \<Rightarrow> bool" where
  \<comment> \<open>the record is bound to the identity \<open>key\<close> by its PMID or by its DOI\<close>
  "cites c key =
     ((or_empty (pmid c) \<noteq> [] \<and> key = cite_key ''PMID'' (or_empty (pmid c)))
      \<or> (or_empty (doi c) \<noteq> [] \<and> key = cite_key ''DOI'' (or_empty (doi c))))"










definition pool_record :: "CitationPlan \<Rightarrow> string \<Rightarrow> Citation option" where
  \<comment> \<open>the last record of the pool that is bound to \<open>key\<close>\<close>
  "pool_record plan key = find (\<lambda>c. cites c key) (rev (map citation (selected plan)))"

definition entry_for :: "CitationPlan \<Rightarrow> string \<times> int \<Rightarrow> string" where
  \<comment> \<open>the reference entry of a numbered identity\<close>
  "entry_for plan kn =
     (case kn of (key, num) \<Rightarrow>
        (case pool_record plan key of
           Some c \<Rightarrow> str_int num @ ''. '' @ format_vancouver_reference c
         | None \<Rightarrow> str_int num @ ''. '' @ key @ '' (Missing metadata; please fix in CitationPlan).''))"

definition scenario_drafts :: "string \<rightharpoonup> string" where
  \<comment> \<open>the two drafts of the end-to-end scenario\<close>
  "scenario_drafts =
     [''Introduction'' \<mapsto> ''Prior work {cite:PMID:111} showed X. {cite:DOI:10.1/ab} confirmed it.'',
      ''Methods'' \<mapsto> ''We repeated {cite:PMID:111}.'']"

definition bracket_journal :: JournalSpec where
  "bracket_journal =
     \<lparr>journal_name = ''Journal'', article_type = ''Original Article'',
      references = \<lparr>style = ''Vancouver'', max_count = 30, in_text_format = ''bracket'',
                    allow_classic_exceptions = 2\<rparr>\<rparr>"

definition trial_record :: Citation where
  "trial_record =
     \<lparr>pmid = Some ''111'', doi = None, title = ''A trial.'', authors = [''Kim J'', ''Lee S''],
      journal = Some ''Journal of X'', journal_iso_abbrev = Some ''J X'', year = Some 2020,
      volume = Some ''12'', issue = Some ''3'', pages = Some ''1-9'', publication_types = [],
      url = None, abstract = None\<rparr>"

definition trial_plan :: CitationPlan where
  "trial_plan = \<lparr>plan_max_count = 30,
     selected = [\<lparr>citation = trial_record, use_for = [''Background''], priority = 0\<rparr>]\<rparr>"

definition closed_text :: "string \<Rightarrow> bool" where
  \<comment> \<open>no opening brace stands after the last closing brace: the text leaves no tag open\<close>
  "closed_text pre = (CHR ''{'' \<notin> set (takeWhile (\<lambda>c. c \<noteq> CHR ''}'') (rev pre)))"

section \<open>Tokens and fingerprints (utils.py, similarity.py)\<close>

definition lower_char :: "char \<Rightarrow> char" where
  \<comment> \<open>\<open>str.lower\<close> on one code point below 256\<close>
  "lower_char c =
     (let n = (of_char c :: nat)
      in if (65 \<le> n \<and> n \<le> 90) \<or> (192 \<le> n \<and> n \<le> 222 \<and> n \<noteq> 215)
         then char_of (n + 32) else c)"

definition lower :: "string \<Rightarrow> string" where
  "lower s = map lower_char s"

fun replace_crlf :: "string \<Rightarrow> string" where
  \<comment> \<open>\<open>text.replace("\r\n", "\n")\<close>\<close>
  "replace_crlf (c # d # cs) =
     (if c = CHR 0x0D \<and> d = CHR 0x0A then CHR 0x0A # replace_crlf cs
      else c # replace_crlf (d # cs))"
| "replace_crlf cs = cs"

definition is_blank :: "char \<Rightarrow> bool" where
  \<comment> \<open>the class \<open>[ \t]\<close>\<close>
  "is_blank c = (c = CHR '' '' \<or> c = CHR 0x09)"

function sub_blanks :: "string \<Rightarrow> string" where
  \<comment> \<open>\<open>re.sub(r"[ \t]+", " ", text)\<close>\<close>
  "sub_blanks [] = []"
| "sub_blanks (c # cs) =
     (if is_blank c then CHR '' '' # sub_blanks (dropWhile is_blank cs)
      else c # sub_blanks cs)"
  by pat_completeness auto
termination
  by (relation "measure length") (auto simp: less_Suc_eq_le length_dropWhile_le)

declare sub_blanks.simps(2) [simp del]

definition is_newline :: "char \<Rightarrow> bool" where
  "is_newline c = (c = CHR 0x0A)"

function sub_newlines :: "string \<Rightarrow> string" where
  \<comment> \<open>\<open>re.sub(r"\n{3,}", "\n\n", text)\<close>\<close>
  "sub_newlines [] = []"
| "sub_newlines (c # cs) =
     (if 3 \<le> length (takeWhile is_newline (c # cs))
      then CHR 0x0A # CHR 0x0A # sub_newlines (dropWhile is_newline cs)
      else c # sub_newlines cs)"
  by pat_completeness auto
termination
  by (relation "measure length") (auto simp: less_Suc_eq_le length_dropWhile_le)

declare sub_newlines.simps(2) [simp del]

definition normalize_whitespace :: "string \<Rightarrow> string" where
  "normalize_whitespace text = strip (sub_newlines (sub_blanks (replace_crlf text)))"

definition is_alnum :: "char \<Rightarrow> bool" where
  \<comment> \<open>the class \<open>[a-z0-9]\<close>\<close>
  "is_alnum c = (let n = (of_char c :: nat) in (97 \<le> n \<and> n \<le> 122) \<or> (48 \<le> n \<and> n \<le> 57))"

function findall_alnum :: "string \<Rightarrow> string list" where
  \<comment> \<open>\<open>re.findall(r"[a-z0-9]+", text)\<close>\<close>
  "findall_alnum [] = []"
| "findall_alnum (c # cs) =
     (if is_alnum c then takeWhile is_alnum (c # cs) # findall_alnum (dropWhile is_alnum cs)
      else findall_alnum cs)"
  by pat_completeness auto
termination
  by (relation "measure length") (auto simp: less_Suc_eq_le length_dropWhile_le)

declare findall_alnum.simps(2) [simp del]

definition tokens :: "string \<Rightarrow> string list" where
  \<comment> \<open>\<open>_tokens\<close>\<close>
  "tokens text = findall_alnum (normalize_whitespace (lower text))"

type_synonym u64 = "64 word"

definition py_index :: "'a list \<Rightarrow> int \<Rightarrow> error + 'a" where
  \<comment> \<open>\<open>xs[i]\<close>: a negative index counts from the end\<close>
  "py_index xs i =
     (if 0 \<le> i \<and> i < int (length xs) then Inr (xs ! nat i)
      else if i < 0 \<and> - int (length xs) \<le> i then Inr (xs ! nat (int (length xs) + i))
      else Inl IndexError)"

definition slice_bound :: "nat \<Rightarrow> int \<Rightarrow> nat" where
  \<comment> \<open>how a slice reads one bound on a sequence of length \<open>n\<close>\<close>
  "slice_bound n i = (if i < 0 then nat (max 0 (int n + i)) else min (nat i) n)"

definition py_slice :: "'a list \<Rightarrow> int \<Rightarrow> int \<Rightarrow> 'a list" where
  \<comment> \<open>\<open>xs[a:b]\<close>\<close>
  "py_slice xs a b =
     (let lo = slice_bound (length xs) a; hi = slice_bound (length xs) b
      in take (hi - lo) (drop lo xs))"

definition hash_char :: "u64 \<Rightarrow> char \<Rightarrow> u64" where
  \<comment> \<open>\<open>h ^= ord(ch); h *= 1099511628211; h &= 0xFFFFFFFFFFFFFFFF\<close>\<close>
  "hash_char h ch = (h XOR of_nat (of_char ch)) * 1099511628211"

definition hash_token :: "u64 \<Rightarrow> string \<Rightarrow> u64" where
  \<comment> \<open>the inner loop over one token, then the separator step with \<open>0xFF\<close>\<close>
  "hash_token h tok = (fold (\<lambda>ch h. hash_char h ch) tok h XOR 0xFF) * 1099511628211"

fun hash_loop :: "string list \<Rightarrow> int list \<Rightarrow> u64 \<Rightarrow> error + u64" where
  "hash_loop toks [] h = Inr h"
| "hash_loop toks (i # is) h =
     (case py_index toks i of
        Inl e \<Rightarrow> Inl e
      | Inr tok \<Rightarrow> hash_loop toks is (hash_token h tok))"

definition hash_ngram :: "string list \<Rightarrow> int \<Rightarrow> int \<Rightarrow> error + u64" where
  \<comment> \<open>\<open>_hash_ngram\<close>: \<open>range(start, start + k)\<close> is \<open>[start..start + k - 1]\<close>\<close>
  "hash_ngram toks start k = hash_loop toks [start..start + k - 1] 1469598103934665603"

definition shingle_hashes :: "string list \<Rightarrow> int \<Rightarrow> error + u64 list" where
  \<comment> \<open>the list \<open>hashes\<close>, over \<open>range(len(toks) - k + 1)\<close>\<close>
  "shingle_hashes toks k = map_result (\<lambda>i. hash_ngram toks i k) [0..int (length toks) - k]"

definition py_min :: "u64 list \<Rightarrow> error + u64" where
  \<comment> \<open>\<open>min(xs)\<close>, which raises on an empty list\<close>
  "py_min xs = (case xs of [] \<Rightarrow> Inl ValueError | x # ys \<Rightarrow> Inr (fold min ys x))"

fun list_index :: "'a list \<Rightarrow> 'a \<Rightarrow> error + nat" where
  \<comment> \<open>\<open>xs.index(v)\<close>: the first position of \<open>v\<close>\<close>
  "list_index [] v = Inl ValueError"
| "list_index (x # xs) v =
     (if x = v then Inr 0
      else (case list_index xs v of Inl e \<Rightarrow> Inl e | Inr i \<Rightarrow> Inr (Suc i)))"

type_synonym winnow_state = "u64 fset \<times> u64 option \<times> int"

definition winnow_step :: "u64 list \<Rightarrow> int \<Rightarrow> winnow_state \<Rightarrow> int \<Rightarrow> error + winnow_state" where
  \<comment> \<open>one round of the winnowing loop on \<open>(fps, min_hash, min_pos)\<close>\<close>
  "winnow_step hashes window st i =
     (case st of (fps, min_hash, min_pos) \<Rightarrow>
        (let window_hashes = py_slice hashes i (i + window)
         in case py_min window_hashes of
              Inl e \<Rightarrow> Inl e
            | Inr m \<Rightarrow>
                (case list_index window_hashes m of
                   Inl e \<Rightarrow> Inl e
                 | Inr j \<Rightarrow>
                     (let pos = i + int j
                      in if pos \<noteq> min_pos \<or> Some m \<noteq> min_hash
                         then Inr (finsert m fps, Some m, pos)
                         else Inr (fps, min_hash, min_pos)))))"

fun winnow_loop :: "u64 list \<Rightarrow> int \<Rightarrow> int list \<Rightarrow> winnow_state \<Rightarrow> error + winnow_state" where
  "winnow_loop hashes window [] st = Inr st"
| "winnow_loop hashes window (i # is) st =
     (case winnow_step hashes window st i of
        Inl e \<Rightarrow> Inl e
      | Inr st' \<Rightarrow> winnow_loop hashes window is st')"

definition winnow_fingerprints :: "string \<Rightarrow> int \<Rightarrow> int \<Rightarrow> error + u64 fset" where
  "winnow_fingerprints text k window =
     (let toks = tokens text
      in if int (length toks) < k then Inr {||}
         else
           (case shingle_hashes toks k of
              Inl e \<Rightarrow> Inl e
            | Inr hashes \<Rightarrow>
                if int (length hashes) \<le> window then Inr (fset_of_list hashes)
                else
                  (case winnow_loop hashes window [0..int (length hashes) - window]
                          ({||}, None, - 1) of
                     Inl e \<Rightarrow> Inl e
                   | Inr (fps, min_hash, min_pos) \<Rightarrow> Inr fps)))"

section \<open>The similarity comparator (similarity.py)\<close>

text \<open>
  A Python float is read as a real number: \<open>inter / union\<close> is the exact quotient of the
  two cardinalities.
\<close>

definition jaccard :: "'a fset \<Rightarrow> 'a fset \<Rightarrow> real" where
  "jaccard a b =
     (if a = {||} \<and> b = {||} then 0
      else
        (let inter = fcard (a |\<inter>| b); union = fcard (a |\<union>| b)
         in if union \<noteq> 0 then real inter / real union else 0))"

record SimilarityResult =
  name_a :: string
  name_b :: string
  score :: real

definition similarity_score :: "string \<Rightarrow> string \<Rightarrow> int \<Rightarrow> int \<Rightarrow> error + real" where
  "similarity_score text_a text_b k window =
     (case winnow_fingerprints text_a k window of
        Inl e \<Rightarrow> Inl e
      | Inr fa \<Rightarrow>
          (case winnow_fingerprints text_b k window of
             Inl e \<Rightarrow> Inl e
           | Inr fb \<Rightarrow> Inr (jaccard fa fb)))"

fun compare_sources :: "string \<Rightarrow> string \<Rightarrow> (string \<times> string) list \<Rightarrow> real
    \<Rightarrow> SimilarityResult list \<Rightarrow> error + SimilarityResult list" where
  \<comment> \<open>the inner loop \<open>for sb, tb in sources.items()\<close>, appending to \<open>results\<close>\<close>
  "compare_sources ga ta [] threshold results = Inr results"
| "compare_sources ga ta ((sb, tb) # sources) threshold results =
     (if tb = [] \<or> strip tb = [] then compare_sources ga ta sources threshold results
      else
        (case similarity_score ta tb 5 4 of
           Inl e \<Rightarrow> Inl e
         | Inr sc \<Rightarrow>
             compare_sources ga ta sources threshold
               (if sc \<ge> threshold
                then results @ [\<lparr>name_a = ga, name_b = sb, score = sc\<rparr>]
                else results)))"

fun compare_generated :: "(string \<times> string) list \<Rightarrow> (string \<times> string) list \<Rightarrow> real
    \<Rightarrow> SimilarityResult list \<Rightarrow> error + SimilarityResult list" where
  \<comment> \<open>the outer loop \<open>for ga, ta in generated.items()\<close>\<close>
  "compare_generated [] sources threshold results = Inr results"
| "compare_generated ((ga, ta) # generated) sources threshold results =
     (if ta = [] \<or> strip ta = [] then compare_generated generated sources threshold results
      else
        (case compare_sources ga ta sources threshold results of
           Inl e \<Rightarrow> Inl e
         | Inr results' \<Rightarrow> compare_generated generated sources threshold results'))"

definition similarity_report :: "(string \<times> string) list \<Rightarrow> (string \<times> string) list \<Rightarrow> real
    \<Rightarrow> error + SimilarityResult list" where
  \<comment> \<open>\<open>results.sort(key=..., reverse=True)\<close> is the stable sort of the reversed list,
      reversed\<close>
  "similarity_report generated sources threshold =
     (case compare_generated generated sources threshold [] of
        Inl e \<Rightarrow> Inl e
      | Inr results \<Rightarrow> Inr (rev (sort_key score (rev results))))"

section \<open>Strings: facts about the helpers\<close>

lemma strip_eq_Nil: "strip s = [] \<longleftrightarrow> (\<forall>c\<in>set s. isspace c)"
proof
  assume "strip s = []"
  then have a: "\<forall>x\<in>set (dropWhile isspace s). isspace x"
    by (simp add: strip_def)
  have "dropWhile isspace s = []"
  proof (rule ccontr)
    assume n: "dropWhile isspace s \<noteq> []"
    then have "\<not> isspace (hd (dropWhile isspace s))" by (rule hd_dropWhile)
    moreover have "hd (dropWhile isspace s) \<in> set (dropWhile isspace s)" using n by simp
    ultimately show False using a by blast
  qed
  then show "\<forall>c\<in>set s. isspace c" by simp
next
  assume "\<forall>c\<in>set s. isspace c"
  then show "strip s = []" by (auto simp: strip_def dest: set_dropWhileD)
qed

lemma strip_id:
  assumes "s \<noteq> []" and "\<not> isspace (hd s)" and "\<not> isspace (last s)"
  shows "strip s = s"
proof -
  from assms(1,2) have 1: "dropWhile isspace s = s" by (cases s) simp_all
  from assms(1,3) have 2: "dropWhile isspace (rev s) = rev s"
    by (cases s rule: rev_cases) simp_all
  show ?thesis by (simp add: strip_def 1 2)
qed

lemma sub_spaces_id: "no_space_run s \<Longrightarrow> sub_spaces s = s"
proof (induction s rule: no_space_run.induct)
  case (1 c d cs)
  then have "sub_spaces (d # cs) = d # cs" by simp
  moreover from 1 have "\<not> (isspace c \<and> isspace d)" by simp
  ultimately show ?case by (subst sub_spaces.simps(2)) auto
qed (simp_all add: sub_spaces.simps(2))

lemma no_space_run_append1: "no_space_run (xs @ ys) \<Longrightarrow> no_space_run xs"
  by (induction xs rule: no_space_run.induct) auto

lemma no_space_run_snoc: "no_space_run xs \<Longrightarrow> \<not> isspace c \<Longrightarrow> no_space_run (xs @ [c])"
  by (induction xs rule: no_space_run.induct) auto

lemma rstrip_char_prefix: "\<exists>ds. t = rstrip_char c t @ ds"
proof -
  have "rstrip_char c t @ rev (takeWhile (\<lambda>x. x = c) (rev t))
      = rev (takeWhile (\<lambda>x. x = c) (rev t) @ dropWhile (\<lambda>x. x = c) (rev t))"
    by (simp only: rstrip_char_def rev_append)
  also have "\<dots> = t" by (simp only: takeWhile_dropWhile_id rev_rev_ident)
  finally have "t = rstrip_char c t @ rev (takeWhile (\<lambda>x. x = c) (rev t))" by (rule sym)
  then show ?thesis by (rule exI)
qed

lemma not_space_dot: "\<not> isspace CHR ''.''"
  by (simp add: isspace_def)

lemma sublist_snoc_same:
  assumes "sublist (q @ [d]) (x @ [d])"
  shows "sublist q x"
proof -
  from assms obtain ps ss where e: "x @ [d] = ps @ (q @ [d]) @ ss"
    by (auto simp: sublist_def)
  show ?thesis
  proof (cases ss rule: rev_cases)
    case Nil
    with e have "x = ps @ q @ []" by simp
    then show ?thesis unfolding sublist_def by blast
  next
    case (snoc ss' z)
    with e have "x = ps @ q @ [d] @ ss'" by simp
    then show ?thesis unfolding sublist_def by blast
  qed
qed

lemma prefix_sep:
  assumes "prefix p (a @ c # b)" and "c \<notin> set p"
  shows "prefix p a"
proof -
  from assms(1) consider "prefix p a" | us where "p = a @ us" "prefix us (c # b)"
    by (auto simp: prefix_append)
  then show ?thesis
  proof cases
    case 1
    then show ?thesis .
  next
    case 2
    with assms(2) have "us = []" by (cases us) (auto simp: prefix_Cons)
    with 2 show ?thesis by simp
  qed
qed

lemma sublist_sep_split:
  assumes "sublist p (a @ c # b)" and "c \<notin> set p"
  shows "sublist p a \<or> sublist p b"
  using assms
proof (induction a)
  case Nil
  then show ?case using prefix_sep [of p "[]" c b] by (auto simp: sublist_Cons_right)
next
  case (Cons x a)
  from Cons.prems(1) have "prefix p ((x # a) @ c # b) \<or> sublist p (a @ c # b)"
    by (simp add: sublist_Cons_right)
  then show ?case
  proof
    assume "prefix p ((x # a) @ c # b)"
    then have "prefix p (x # a)" using Cons.prems(2) by (rule prefix_sep)
    then show ?thesis by (auto simp: sublist_Cons_right)
  next
    assume "sublist p (a @ c # b)"
    then have "sublist p a \<or> sublist p b" using Cons.prems(2) by (rule Cons.IH)
    then show ?thesis by (auto simp: sublist_Cons_right)
  qed
qed

section \<open>The reference formatter\<close>

lemma et_al_not_after_space:
  "sublist ''et al.'' (CHR '' '' # r) \<Longrightarrow> sublist ''et al.'' r"
  by (simp add: sublist_Cons_right)

lemma et_al_in_join:
  assumes "sublist ''et al.'' (join '', '' xs @ ''.'')" and "xs \<noteq> []"
  shows "\<exists>x\<in>set xs. sublist ''et al'' x"
  using assms
proof (induction "'', ''" xs rule: join.induct)
  case 1
  then show ?case by simp
next
  case (2 x)
  then have "sublist (''et al'' @ ''.'') (x @ ''.'')" by simp
  then have "sublist ''et al'' x" by (rule sublist_snoc_same)
  then show ?case by simp
next
  case (3 x y ys)
  from 3(2) have "sublist ''et al.'' (x @ CHR '','' # (CHR '' '' # join '', '' (y # ys) @ ''.''))"
    by simp
  then have "sublist ''et al.'' x \<or> sublist ''et al.'' (CHR '' '' # join '', '' (y # ys) @ ''.'')"
    by (rule sublist_sep_split) simp
  then show ?case
  proof
    assume "sublist ''et al.'' x"
    moreover have "sublist ''et al'' ''et al.''" by (simp add: sublist_Cons_right)
    ultimately have "sublist ''et al'' x" by (rule sublist_order.order.trans[rotated])
    then show ?thesis by simp
  next
    assume "sublist ''et al.'' (CHR '' '' # join '', '' (y # ys) @ ''.'')"
    then have "sublist ''et al.'' (join '', '' (y # ys) @ ''.'')" by (rule et_al_not_after_space)
    then have "\<exists>x\<in>set (y # ys). sublist ''et al'' x" using 3(1) by simp
    then show ?thesis by auto
  qed
qed

text \<open>
  C6, as the code has it. One to six authors: the segment is the names joined with a comma and
  a space, then a period; it holds no \<open>et al.\<close> when no name holds \<open>et al\<close>. More than six: the
  first six joined the same way, then \<open>, et al.\<close>. No author: the segment is empty and the
  list of parts is the list of the other parts.
\<close>

theorem format_authors_segment:
  "(as \<noteq> [] \<and> length as \<le> 6 \<longrightarrow>
      format_authors as = join '', '' as @ ''.'' \<and>
      ((\<forall>a\<in>set as. \<not> sublist ''et al'' a) \<longrightarrow> \<not> sublist ''et al.'' (format_authors as)))
   \<and> (6 < length as \<longrightarrow> format_authors as = join '', '' (take 6 as) @ '', et al.'')
   \<and> (authors c = [] \<longrightarrow> format_authors (authors c) = [] \<and> reference_parts c = other_parts c)"
proof (intro conjI impI)
  assume a: "as \<noteq> [] \<and> length as \<le> 6"
  then show e: "format_authors as = join '', '' as @ ''.''" by (simp add: format_authors_def)
  assume n: "\<forall>a\<in>set as. \<not> sublist ''et al'' a"
  show "\<not> sublist ''et al.'' (format_authors as)"
  proof
    assume "sublist ''et al.'' (format_authors as)"
    with e have "sublist ''et al.'' (join '', '' as @ ''.'')" by simp
    then have "\<exists>x\<in>set as. sublist ''et al'' x" using a by (intro et_al_in_join) simp_all
    with n show False by blast
  qed
next
  assume "6 < length as"
  then show "format_authors as = join '', '' (take 6 as) @ '', et al.''"
    by (auto simp: format_authors_def)
next
  assume "authors c = []"
  then show "format_authors (authors c) = []" by (simp add: format_authors_def)
next
  assume "authors c = []"
  then show "reference_parts c = other_parts c"
    by (simp add: reference_parts_def format_authors_def)
qed

theorem format_authors_segment_witness:
  "format_authors [''Kim J'', ''Lee S''] = ''Kim J, Lee S.''
   \<and> \<not> sublist ''et al.'' (format_authors [''Kim J'', ''Lee S''])
   \<and> format_authors [''A'', ''B'', ''C'', ''D'', ''E'', ''F'', ''G''] = ''A, B, C, D, E, F, et al.''
   \<and> reference_parts (title_only ''T'') = other_parts (title_only ''T'')"
proof -
  let ?two = "[''Kim J'', ''Lee S'']"
  let ?seven = "[''A'', ''B'', ''C'', ''D'', ''E'', ''F'', ''G'']"
  have h: "?two \<noteq> [] \<and> length ?two \<le> 6" by simp
  have n: "\<forall>a\<in>set ?two. \<not> sublist ''et al'' a" by (simp add: sublist_Cons_right)
  from format_authors_segment [of ?two] h n
  have 1: "format_authors ?two = join '', '' ?two @ ''.''"
    and 2: "\<not> sublist ''et al.'' (format_authors ?two)"
    by blast+
  have "6 < length ?seven" by simp
  with format_authors_segment [of ?seven]
  have 3: "format_authors ?seven = join '', '' (take 6 ?seven) @ '', et al.''"
    by blast
  have "authors (title_only ''T'') = []" by (simp add: title_only_def)
  with format_authors_segment [of _ "title_only ''T''"]
  have 4: "reference_parts (title_only ''T'') = other_parts (title_only ''T'')"
    by blast
  from 1 2 3 4 show ?thesis by simp
qed

text \<open>
  C6 as it is stated fails on a name that holds the words itself: the one author \<open>et al\<close>
  gives the segment \<open>et al.\<close>.
\<close>

theorem format_authors_et_al_counterexample:
  "[''et al''] \<noteq> [] \<and> length [''et al''] \<le> 6 \<and> sublist ''et al.'' (format_authors [''et al''])"
  by (simp add: format_authors_def)

lemma title_only_parts:
  "reference_parts (title_only t) =
     (if rstrip_char CHR ''.'' t = [] then [] else [rstrip_char CHR ''.'' t @ ''.''])"
  by (simp add: reference_parts_def other_parts_def year_block_def format_authors_def
      title_only_def or_empty_def)

lemma format_title_only:
  "format_vancouver_reference (title_only t) =
     (if rstrip_char CHR ''.'' t = [] then []
      else strip (sub_spaces (rstrip_char CHR ''.'' t @ ''.'')))"
proof -
  have "strip (u @ ''.'') \<noteq> []" for u
    using not_space_dot by (auto simp: strip_eq_Nil)
  then show ?thesis
    by (simp add: format_vancouver_reference_def title_only_parts strip_def)
qed

text \<open>
  C5, as the code has it. For a record with a title and nothing else the formatter returns
  the empty string when the title is empty or all periods; otherwise the title without its
  trailing periods, one period added, every run of two or more whitespace characters made
  one space and the ends trimmed. When that title is not empty, does not start with
  whitespace and has no two whitespace characters in a row, the result is exactly the title
  without its trailing periods and one period. The formatter is a total function on records:
  no step of it can raise.
\<close>

theorem format_title_only_record:
  "format_vancouver_reference (title_only t) =
     (if rstrip_char CHR ''.'' t = [] then []
      else strip (sub_spaces (rstrip_char CHR ''.'' t @ ''.'')))
   \<and> (rstrip_char CHR ''.'' t \<noteq> [] \<and> \<not> isspace (hd t) \<and> no_space_run t \<longrightarrow>
        format_vancouver_reference (title_only t) = rstrip_char CHR ''.'' t @ ''.'')"
proof (intro conjI impI)
  show g: "format_vancouver_reference (title_only t) =
     (if rstrip_char CHR ''.'' t = [] then []
      else strip (sub_spaces (rstrip_char CHR ''.'' t @ ''.'')))"
    by (rule format_title_only)
  assume a: "rstrip_char CHR ''.'' t \<noteq> [] \<and> \<not> isspace (hd t) \<and> no_space_run t"
  obtain ds where t: "t = rstrip_char CHR ''.'' t @ ds" using rstrip_char_prefix by blast
  let ?r = "rstrip_char CHR ''.'' t"
  from a t have "no_space_run (?r @ ds)" by simp
  then have "no_space_run ?r" by (rule no_space_run_append1)
  then have "no_space_run (?r @ ''.'')" using not_space_dot by (rule no_space_run_snoc)
  then have 1: "sub_spaces (?r @ ''.'') = ?r @ ''.''" by (rule sub_spaces_id)
  from a t have "hd t = hd ?r" by (metis hd_append2)
  with a have "\<not> isspace (hd (?r @ ''.''))" by simp
  then have 2: "strip (?r @ ''.'') = ?r @ ''.''"
    using not_space_dot by (intro strip_id) simp_all
  from a g 1 2 show "format_vancouver_reference (title_only t) = ?r @ ''.''" by simp
qed

theorem format_title_only_record_witness:
  "format_vancouver_reference (title_only ''Robotic surgery.'') = ''Robotic surgery.''"
proof -
  let ?t = "''Robotic surgery.''"
  have h: "rstrip_char CHR ''.'' ?t \<noteq> [] \<and> \<not> isspace (hd ?t) \<and> no_space_run ?t"
    by (simp add: rstrip_char_def isspace_def)
  with format_title_only_record [of ?t]
  have "format_vancouver_reference (title_only ?t) = rstrip_char CHR ''.'' ?t @ ''.''"
    by blast
  then show ?thesis by (simp add: rstrip_char_def)
qed

text \<open>
  C5 as it is stated fails on a title with two spaces in a row: the formatter returns it with
  one space.
\<close>

theorem format_title_only_counterexample:
  "format_vancouver_reference (title_only ''A  B'') = ''A B.''
   \<and> rstrip_char CHR ''.'' ''A  B'' @ ''.'' = ''A  B.''"
  by (simp add: format_title_only rstrip_char_def strip_def sub_spaces.simps(2) isspace_def)

section \<open>The similarity comparator\<close>

text \<open>
  C7. The score is the size of the intersection over the size of the union, and 0 when both
  sets are empty; it lies between 0 and 1; it is 1 for a non-empty set against itself.
\<close>

theorem jaccard_index:
  "jaccard a b =
     (if a = {||} \<and> b = {||} then 0 else real (fcard (a |\<inter>| b)) / real (fcard (a |\<union>| b)))
   \<and> 0 \<le> jaccard a b \<and> jaccard a b \<le> 1
   \<and> jaccard ({||} :: 'a fset) {||} = 0
   \<and> (a \<noteq> {||} \<longrightarrow> jaccard a a = 1)"
proof -
  have le: "fcard (a |\<inter>| b) \<le> fcard (a |\<union>| b)"
    by (rule fcard_mono) auto
  have nz: "fcard (a |\<union>| b) \<noteq> 0" if "\<not> (a = {||} \<and> b = {||})"
    using that by auto
  have eq: "jaccard a b =
     (if a = {||} \<and> b = {||} then 0 else real (fcard (a |\<inter>| b)) / real (fcard (a |\<union>| b)))"
    using nz by (auto simp: jaccard_def Let_def)
  have lo: "0 \<le> jaccard a b" by (simp add: eq)
  have hi: "jaccard a b \<le> 1"
    using le nz by (auto simp: eq divide_le_eq_1)
  have e0: "jaccard ({||} :: 'a fset) {||} = 0" by (simp add: jaccard_def)
  have same: "jaccard a a = 1" if "a \<noteq> {||}"
    using that by (simp add: jaccard_def Let_def)
  from eq lo hi e0 same show ?thesis by blast
qed

theorem jaccard_index_witness:
  "jaccard {|1, 2 :: u64|} {|2, 3|} = 1 / 3 \<and> jaccard {|1, 2 :: u64|} {|1, 2|} = 1"
proof -
  let ?a = "{|1, 2 :: u64|}" and ?b = "{|2, 3 :: u64|}"
  from jaccard_index [of ?a ?b]
  have "jaccard ?a ?b =
      (if ?a = {||} \<and> ?b = {||} then 0
       else real (fcard (?a |\<inter>| ?b)) / real (fcard (?a |\<union>| ?b)))"
    by blast
  then have 1: "jaccard ?a ?b = 1 / 3" by (simp add: fcard_finsert_if fcard_fempty)
  have "?a \<noteq> {||}" by simp
  with jaccard_index [of ?a ?a] have 2: "jaccard ?a ?a = 1" by blast
  from 1 2 show ?thesis by simp
qed

section \<open>Tokens and fingerprints\<close>

lemma map_result_Inr:
  assumes "\<forall>x\<in>set xs. \<exists>y. f x = Inr y"
  shows "\<exists>ys. map_result f xs = Inr ys \<and> length ys = length xs"
  using assms
proof (induction xs)
  case Nil
  then show ?case by simp
next
  case (Cons x xs)
  then obtain y ys where "f x = Inr y" and "map_result f xs = Inr ys" and "length ys = length xs"
    by auto
  then show ?case by simp
qed

lemma hash_loop_Inr:
  assumes "\<forall>i\<in>set js. 0 \<le> i \<and> i < int (length toks)"
  shows "\<exists>h'. hash_loop toks js h = Inr h'"
  using assms
proof (induction js arbitrary: h)
  case Nil
  then show ?case by simp
next
  case (Cons j js)
  then have "py_index toks j = Inr (toks ! nat j)" by (simp add: py_index_def)
  with Cons show ?case by simp
qed

lemma hash_ngram_Inr:
  assumes "0 \<le> start" and "start + k \<le> int (length toks)"
  shows "\<exists>h. hash_ngram toks start k = Inr h"
  unfolding hash_ngram_def using assms by (intro hash_loop_Inr) auto


lemma shingle_hashes_Inr:
  "\<exists>hs. shingle_hashes toks k = Inr hs \<and> length hs = nat (int (length toks) - k + 1)"
proof -
  have "\<forall>i\<in>set [0..int (length toks) - k]. \<exists>h. hash_ngram toks i k = Inr h"
    by (auto intro: hash_ngram_Inr)
  from map_result_Inr [OF this] show ?thesis
    by (auto simp: shingle_hashes_def length_upto)
qed

lemma findall_alnum_tokens:
  "\<forall>t\<in>set (findall_alnum s). t \<noteq> [] \<and> (\<forall>c\<in>set t. is_alnum c)"
proof (induction s rule: findall_alnum.induct)
  case 1
  then show ?case by simp
next
  case (2 c cs)
  show ?case
  proof (cases "is_alnum c")
    case True
    with 2 have ih: "\<forall>t\<in>set (findall_alnum (dropWhile is_alnum cs)).
        t \<noteq> [] \<and> (\<forall>c\<in>set t. is_alnum c)"
      by simp
    have e: "findall_alnum (c # cs) =
        (c # takeWhile is_alnum cs) # findall_alnum (dropWhile is_alnum cs)"
      using True by (simp add: findall_alnum.simps(2))
    have a: "\<forall>x\<in>set (takeWhile is_alnum cs). is_alnum x"
      by (metis set_takeWhileD)
    from ih a True show ?thesis unfolding e by simp
  next
    case False
    with 2 show ?thesis by (simp add: findall_alnum.simps(2))
  qed
qed

text \<open>
  C8. Every token is a non-empty run of characters of \<open>[a-z0-9]\<close>. When the text has fewer
  than \<open>k\<close> tokens, \<open>winnow_fingerprints\<close> returns the empty set, whatever the window, and
  raises nothing.
\<close>

theorem short_text_no_fingerprints:
  "(\<forall>t\<in>set (tokens text). t \<noteq> [] \<and> (\<forall>c\<in>set t. is_alnum c))
   \<and> (int (length (tokens text)) < k \<longrightarrow> winnow_fingerprints text k window = Inr {||})"
  using findall_alnum_tokens [of "normalize_whitespace (lower text)"]
  by (simp add: winnow_fingerprints_def tokens_def)

theorem short_text_no_fingerprints_witness:
  "tokens ''A b, c!'' = [''a'', ''b'', ''c''] \<and> winnow_fingerprints ''A b, c!'' 5 4 = Inr {||}"
proof -
  have t: "tokens ''A b, c!'' = [''a'', ''b'', ''c'']" by code_simp
  then have "int (length (tokens ''A b, c!'')) < 5" by simp
  with short_text_no_fingerprints [of "''A b, c!''" 5 4]
  have "winnow_fingerprints ''A b, c!'' 5 4 = Inr {||}" by blast
  with t show ?thesis by simp
qed

text \<open>
  C10. When the text has at least \<open>k\<close> tokens and its \<open>t - k + 1\<close> shingles are no more than
  the window, the list of shingle hashes is computed without an exception, has that length,
  and \<open>winnow_fingerprints\<close> returns exactly the set of its elements: no window minimum is
  taken.
\<close>

theorem few_shingles_all_kept:
  "k \<le> int (length (tokens text)) \<and> int (length (tokens text)) - k + 1 \<le> window \<longrightarrow>
     (\<exists>hs. shingle_hashes (tokens text) k = Inr hs
        \<and> int (length hs) = int (length (tokens text)) - k + 1
        \<and> winnow_fingerprints text k window = Inr (fset_of_list hs))"
proof
  assume a: "k \<le> int (length (tokens text)) \<and> int (length (tokens text)) - k + 1 \<le> window"
  obtain hs where hs: "shingle_hashes (tokens text) k = Inr hs"
    and len: "length hs = nat (int (length (tokens text)) - k + 1)"
    using shingle_hashes_Inr by blast
  from a len have l: "int (length hs) = int (length (tokens text)) - k + 1" by simp
  with a hs have "winnow_fingerprints text k window = Inr (fset_of_list hs)"
    by (simp add: winnow_fingerprints_def Let_def)
  with hs l show "\<exists>hs. shingle_hashes (tokens text) k = Inr hs
        \<and> int (length hs) = int (length (tokens text)) - k + 1
        \<and> winnow_fingerprints text k window = Inr (fset_of_list hs)" by blast
qed

theorem few_shingles_all_kept_witness:
  "shingle_hashes (tokens ''a b'') 2 = Inr [14517665373137466092]
   \<and> winnow_fingerprints ''a b'' 2 4 = Inr {|14517665373137466092|}"
proof -
  have t: "tokens ''a b'' = [''a'', ''b'']" by code_simp
  have s: "shingle_hashes (tokens ''a b'') 2 = Inr [14517665373137466092]" by code_simp
  from t have "2 \<le> int (length (tokens ''a b'')) \<and> int (length (tokens ''a b'')) - 2 + 1 \<le> 4"
    by simp
  with few_shingles_all_kept [of 2 "''a b''" 4] obtain hs
    where "shingle_hashes (tokens ''a b'') 2 = Inr hs"
      and "winnow_fingerprints ''a b'' 2 4 = Inr (fset_of_list hs)"
    by blast
  with s show ?thesis by simp
qed

section \<open>The renumbering and the reference list\<close>

lemma first_occurrences_snoc:
  "first_occurrences (xs @ [x]) =
     (if x \<in> set xs then first_occurrences xs else first_occurrences xs @ [x])"
  by (simp add: first_occurrences_def)

lemma set_first_occurrences: "set (first_occurrences xs) = set xs"
  by (simp add: first_occurrences_def)

lemma distinct_first_occurrences: "distinct (first_occurrences xs)"
  by (simp add: first_occurrences_def)


lemma update_new: "map_of m k = None \<Longrightarrow> AList.update k v m = m @ [(k, v)]"
  by (induction m) (auto split: if_splits)

lemma upto_snoc: "[1..1 + int (length m)] = [1..int (length m)] @ [1 + int (length m)]"
  using upto_rec2 [of 1 "1 + int (length m)"] by simp

lemma numbering_keys:
  assumes "numbering_of m n seen"
  shows "fst ` set m = set seen"
proof -
  from assms have "set (map fst m) = set (first_occurrences seen)"
    by (simp add: numbering_of_def)
  then show ?thesis by (simp add: set_first_occurrences)
qed

lemma repl_step:
  assumes "numbering_of m n seen"
  shows "\<exists>num m' n' ext. repl fmt m n kind ident = Inr (marker fmt num, m', n')
           \<and> numbering_of m' n' (seen @ [cite_key kind ident])
           \<and> map_of m' (cite_key kind ident) = Some num \<and> m' = m @ ext"
proof (cases "map_of m (cite_key kind ident)")
  case None
  then have u: "AList.update (cite_key kind ident) n m = m @ [(cite_key kind ident, n)]"
    by (rule update_new)
  from None have "cite_key kind ident \<notin> fst ` set m" by (simp add: map_of_eq_None_iff)
  then have notin: "cite_key kind ident \<notin> set seen"
    using numbering_keys [OF assms] by simp
  have l: "map_of (m @ [(cite_key kind ident, n)]) (cite_key kind ident) = Some n"
    using None by (simp add: map_add_def)
  have r: "repl fmt m n kind ident = Inr (marker fmt n, m @ [(cite_key kind ident, n)], n + 1)"
    using None by (simp add: repl_def Let_def u map_add_def)
  have "numbering_of (m @ [(cite_key kind ident, n)]) (n + 1) (seen @ [cite_key kind ident])"
    using assms notin upto_snoc [of m]
    by (simp add: numbering_of_def first_occurrences_snoc)
  then show ?thesis using r l by blast
next
  case (Some num)
  then have "map_of m (cite_key kind ident) \<noteq> None" by simp
  then have "cite_key kind ident \<in> fst ` set m" by (simp add: map_of_eq_None_iff)
  then have isin: "cite_key kind ident \<in> set seen"
    using numbering_keys [OF assms] by simp
  have r: "repl fmt m n kind ident = Inr (marker fmt num, m, n)"
    using Some by (simp add: repl_def Let_def)
  have "numbering_of m n (seen @ [cite_key kind ident])"
    using assms isin by (simp add: numbering_of_def first_occurrences_snoc)
  moreover have "m = m @ []" by simp
  ultimately show ?thesis using r Some by blast
qed

lemma map_of_append_Some: "map_of m k = Some v \<Longrightarrow> map_of (m @ ext) k = Some v"
  by (simp add: map_add_def)

lemma sub_pieces_numbering:
  assumes "numbering_of m n seen"
  shows "\<exists>m' n' ext. sub_pieces fmt ps m n = Inr (render fmt m' ps, m', n')
           \<and> numbering_of m' n' (seen @ piece_keys ps) \<and> m' = m @ ext"
  using assms
proof (induction ps arbitrary: m n seen)
  case Nil
  have "m = m @ []" by simp
  with Nil show ?case by auto
next
  case (Cons p ps)
  show ?case
  proof (cases p)
    case (Lit c)
    from Cons.IH [OF Cons.prems] obtain m' n' ext
      where "sub_pieces fmt ps m n = Inr (render fmt m' ps, m', n')"
        and "numbering_of m' n' (seen @ piece_keys ps)" and "m' = m @ ext"
      by blast
    with Lit show ?thesis by simp
  next
    case (Cite kind ident)
    from repl_step [OF Cons.prems, of fmt kind ident] obtain num m1 n1 ext1
      where r: "repl fmt m n kind ident = Inr (marker fmt num, m1, n1)"
        and inv1: "numbering_of m1 n1 (seen @ [cite_key kind ident])"
        and l1: "map_of m1 (cite_key kind ident) = Some num" and e1: "m1 = m @ ext1"
      by blast
    from Cons.IH [OF inv1] obtain m' n' ext
      where s: "sub_pieces fmt ps m1 n1 = Inr (render fmt m' ps, m', n')"
        and inv: "numbering_of m' n' ((seen @ [cite_key kind ident]) @ piece_keys ps)"
        and e: "m' = m1 @ ext"
      by blast
    from l1 e have l: "map_of m' (cite_key kind ident) = Some num"
      by (simp add: map_of_append_Some)
    have 1: "sub_pieces fmt (p # ps) m n = Inr (render fmt m' (p # ps), m', n')"
      using Cite r s l by simp
    have 2: "numbering_of m' n' (seen @ piece_keys (p # ps))"
      using Cite inv by simp
    have 3: "m' = m @ (ext1 @ ext)" using e e1 by simp
    from 1 2 3 show ?thesis by blast
  qed
qed

lemma render_append:
  assumes "set (piece_keys ps) \<subseteq> fst ` set m"
  shows "render fmt (m @ ext) ps = render fmt m ps"
  using assms
proof (induction ps)
  case Nil
  then show ?case by simp
next
  case (Cons p ps)
  show ?case
  proof (cases p)
    case (Lit c)
    with Cons show ?thesis by simp
  next
    case (Cite kind ident)
    with Cons.prems have "cite_key kind ident \<in> fst ` set m" by simp
    then have "map_of m (cite_key kind ident) \<noteq> None" by (simp add: map_of_eq_None_iff)
    then obtain v where "map_of m (cite_key kind ident) = Some v" by blast
    then have "map_of (m @ ext) (cite_key kind ident) = map_of m (cite_key kind ident)"
      by (simp add: map_of_append_Some)
    moreover from Cite Cons have "render fmt (m @ ext) ps = render fmt m ps" by simp
    ultimately show ?thesis using Cite by simp
  qed
qed

lemma rendered_append:
  assumes "set (text_keys prev) \<subseteq> fst ` set m"
  shows "rendered fmt (m @ ext) prev = rendered fmt m prev"
  using assms
proof (induction prev)
  case Nil
  then show ?case by (simp add: rendered_def)
next
  case (Cons st prev)
  obtain sec t where st: "st = (sec, t)" by (cases st)
  from Cons.prems st have a: "set (piece_keys (cite_scan t)) \<subseteq> fst ` set m"
    and b: "set (text_keys prev) \<subseteq> fst ` set m"
    by (simp_all add: text_keys_def)
  from a have "render fmt (m @ ext) (cite_scan t) = render fmt m (cite_scan t)"
    by (rule render_append)
  moreover from b have "rendered fmt (m @ ext) prev = rendered fmt m prev" by (rule Cons.IH)
  ultimately show ?case using st by (simp add: rendered_def)
qed

lemma text_keys_append: "text_keys (xs @ ys) = text_keys xs @ text_keys ys"
  by (simp add: text_keys_def)

lemma section_texts_Cons:
  "section_texts drafts (sec # secs) =
     (case drafts sec of
        None \<Rightarrow> []
      | Some t \<Rightarrow> if t = [] \<or> strip t = [] then [] else [(sec, strip t)])
     @ section_texts drafts secs"
  by (simp add: section_texts_def)

lemma fst_rendered: "fst ` set (rendered fmt m texts) = fst ` set texts"
  by (force simp: rendered_def)

lemma number_sections_numbering:
  assumes "numbering_of m n seen" and "distinct secs" and "set secs \<inter> fst ` set prev = {}"
    and "set (text_keys prev) \<subseteq> set seen"
  shows "\<exists>m' n' ext.
           number_sections fmt drafts secs (rendered fmt m prev) m n =
             Inr (rendered fmt m' (prev @ section_texts drafts secs), m', n')
           \<and> numbering_of m' n' (seen @ text_keys (section_texts drafts secs))
           \<and> m' = m @ ext"
  using assms
proof (induction secs arbitrary: m n seen prev)
  case Nil
  have "m = m @ []" by simp
  with Nil show ?case by (auto simp: section_texts_def text_keys_def)
next
  case (Cons sec secs)
  from Cons.prems have d: "distinct secs" and i: "set secs \<inter> fst ` set prev = {}"
    and secnew: "sec \<notin> fst ` set prev" and secnot: "sec \<notin> set secs"
    by auto
  show ?case
  proof (cases "\<exists>t. drafts sec = Some t \<and> \<not> (t = [] \<or> strip t = [])")
    case False
    then have skip: "section_texts drafts (sec # secs) = section_texts drafts secs"
      by (auto simp: section_texts_Cons split: option.splits)
    from False have step: "number_sections fmt drafts (sec # secs) (rendered fmt m prev) m n =
        number_sections fmt drafts secs (rendered fmt m prev) m n"
      by (auto split: option.splits)
    from Cons.IH [OF Cons.prems(1) d i Cons.prems(4)] show ?thesis
      unfolding skip step .
  next
    case True
    then obtain t where t: "drafts sec = Some t" and nb: "\<not> (t = [] \<or> strip t = [])" by blast
    let ?ps = "cite_scan (strip t)"
    from sub_pieces_numbering [OF Cons.prems(1), of fmt ?ps] obtain m1 n1 ext1
      where s: "sub_pieces fmt ?ps m n = Inr (render fmt m1 ?ps, m1, n1)"
        and inv1: "numbering_of m1 n1 (seen @ piece_keys ?ps)" and e1: "m1 = m @ ext1"
      by blast
    have keys_m: "set (text_keys prev) \<subseteq> fst ` set m"
      using Cons.prems(4) numbering_keys [OF Cons.prems(1)] by simp
    have old: "rendered fmt m1 prev = rendered fmt m prev"
      unfolding e1 using keys_m by (rule rendered_append)
    have "sec \<notin> fst ` set (rendered fmt m prev)" using secnew by (simp add: fst_rendered)
    then have "map_of (rendered fmt m prev) sec = None" by (simp add: map_of_eq_None_iff)
    then have "AList.update sec (render fmt m1 ?ps) (rendered fmt m prev)
        = rendered fmt m prev @ [(sec, render fmt m1 ?ps)]"
      by (rule update_new)
    also have "\<dots> = rendered fmt m1 (prev @ [(sec, strip t)])"
      using old by (simp add: rendered_def)
    finally have upd: "AList.update sec (render fmt m1 ?ps) (rendered fmt m prev)
        = rendered fmt m1 (prev @ [(sec, strip t)])" .
    have step: "number_sections fmt drafts (sec # secs) (rendered fmt m prev) m n =
        number_sections fmt drafts secs (rendered fmt m1 (prev @ [(sec, strip t)])) m1 n1"
      using t nb s upd by (simp add: re_number_citations_def)
    have texts: "section_texts drafts (sec # secs) = (sec, strip t) # section_texts drafts secs"
      using t nb by (simp add: section_texts_Cons)
    have i1: "set secs \<inter> fst ` set (prev @ [(sec, strip t)]) = {}"
      using i secnot by auto
    have k1: "set (text_keys (prev @ [(sec, strip t)])) \<subseteq> set (seen @ piece_keys ?ps)"
      using Cons.prems(4) by (auto simp: text_keys_def)
    from Cons.IH [OF inv1 d i1 k1] obtain m' n' ext
      where r: "number_sections fmt drafts secs (rendered fmt m1 (prev @ [(sec, strip t)])) m1 n1 =
            Inr (rendered fmt m' ((prev @ [(sec, strip t)]) @ section_texts drafts secs), m', n')"
        and inv: "numbering_of m' n' ((seen @ piece_keys ?ps) @ text_keys (section_texts drafts secs))"
        and e: "m' = m1 @ ext"
      by blast
    have 1: "number_sections fmt drafts (sec # secs) (rendered fmt m prev) m n =
        Inr (rendered fmt m' (prev @ section_texts drafts (sec # secs)), m', n')"
      unfolding step texts using r by simp
    have 2: "numbering_of m' n' (seen @ text_keys (section_texts drafts (sec # secs)))"
      unfolding texts using inv by (simp add: text_keys_def)
    have 3: "m' = m @ (ext1 @ ext)" using e e1 by simp
    from 1 2 3 show ?thesis by blast
  qed
qed

lemma distinct_section_order: "distinct (section_order incl drafts)"
  by (simp add: section_order_def Let_def)

lemma number_drafts_numbering:
  "\<exists>m' n'. number_drafts jrnl drafts incl =
       Inr (rendered (in_text_format (references jrnl)) m'
              (section_texts drafts (section_order incl drafts)), m', n')
     \<and> numbering_of m' n' (text_keys (section_texts drafts (section_order incl drafts)))"
proof -
  have inv0: "numbering_of [] 1 []" by (simp add: numbering_of_def first_occurrences_def)
  have r0: "rendered (in_text_format (references jrnl)) [] [] = []" by (simp add: rendered_def)
  from number_sections_numbering [OF inv0 distinct_section_order, of incl drafts "[]"
      "in_text_format (references jrnl)" drafts]
  show ?thesis unfolding number_drafts_def r0 by (auto simp: text_keys_def)
qed









lemma add_citation_lookup:
  "map_of (add_citation c acc) key = (if cites c key then Some c else map_of acc key)"
proof -
  have ne: "cite_key ''PMID'' a \<noteq> cite_key ''DOI'' b" for a b
    by (simp add: cite_key_def)
  show ?thesis
    using ne by (auto simp: add_citation_def cites_def Let_def update_conv')
qed

lemma find_snoc:
  "find P (xs @ [x]) =
     (case find P xs of Some y \<Rightarrow> Some y | None \<Rightarrow> if P x then Some x else None)"
  by (induction xs) simp_all

lemma key_to_citation_fold:
  "map_of (fold (\<lambda>cu. add_citation (citation cu)) cus acc) key =
     (case find (\<lambda>c. cites c key) (rev (map citation cus)) of
        Some c \<Rightarrow> Some c
      | None \<Rightarrow> map_of acc key)"
proof (induction cus arbitrary: acc)
  case Nil
  then show ?case by simp
next
  case (Cons cu cus)
  have "find (\<lambda>c. cites c key) (rev (map citation cus) @ [citation cu]) =
      (case find (\<lambda>c. cites c key) (rev (map citation cus)) of
         Some c \<Rightarrow> Some c
       | None \<Rightarrow> if cites (citation cu) key then Some (citation cu) else None)"
    by (rule find_snoc)
  then show ?case
    by (simp add: Cons.IH add_citation_lookup split: option.splits)
qed

lemma key_to_citation_lookup:
  "map_of (key_to_citation_of plan) key =
     find (\<lambda>c. cites c key) (rev (map citation (selected plan)))"
  by (simp add: key_to_citation_of_def key_to_citation_fold split: option.splits)

lemma num_to_key_fold:
  assumes "distinct (map snd m)" and "set (map snd m) \<inter> fst ` set acc = {}"
  shows "fold (\<lambda>(key, num). AList.update num key) m acc = acc @ map (\<lambda>(key, num). (num, key)) m"
  using assms
proof (induction m arbitrary: acc)
  case Nil
  then show ?case by simp
next
  case (Cons kn m)
  obtain key num where kn: "kn = (key, num)" by (cases kn)
  from Cons.prems kn have "num \<notin> fst ` set acc" by auto
  then have "map_of acc num = None" by (simp add: map_of_eq_None_iff)
  then have u: "AList.update num key acc = acc @ [(num, key)]" by (rule update_new)
  from Cons.prems kn have d: "distinct (map snd m)"
    and i: "set (map snd m) \<inter> fst ` set (acc @ [(num, key)]) = {}"
    by auto
  from Cons.IH [OF d i] show ?case using kn u by simp
qed

lemma map_result_map:
  assumes "\<forall>x\<in>set xs. f x = Inr (g x)"
  shows "map_result f xs = Inr (map g xs)"
  using assms by (induction xs) simp_all

lemma map_result_map2:
  assumes "\<forall>x\<in>set xs. f (h x) = Inr (g x)"
  shows "map_result f (map h xs) = Inr (map g xs)"
  using assms by (induction xs) simp_all

lemma build_references_entries:
  assumes "map snd m = [1..int (length m)]"
  shows "build_references m plan = Inr (map (entry_for plan) m)"
proof -
  have d: "distinct (map snd m)" unfolding assms by simp
  have n2k: "num_to_key_of m = map (\<lambda>(key, num). (num, key)) m"
    unfolding num_to_key_of_def using num_to_key_fold [OF d, of "[]"] by simp
  have fsts: "map fst (num_to_key_of m) = map snd m"
    unfolding n2k by (simp add: case_prod_beta comp_def)
  have "sorted (map snd m)" unfolding assms by simp
  then have srt: "sort (map fst (num_to_key_of m)) = map snd m"
    unfolding fsts by (simp add: sorted_sort_id)
  have ent: "reference_entry (num_to_key_of m) (key_to_citation_of plan) (snd kn) =
      Inr (entry_for plan kn)" if "kn \<in> set m" for kn
  proof -
    obtain key num where kn: "kn = (key, num)" by (cases kn)
    from that kn have "(num, key) \<in> set (num_to_key_of m)" unfolding n2k by force
    moreover have "distinct (map fst (num_to_key_of m))" unfolding fsts by (rule d)
    ultimately have "map_of (num_to_key_of m) num = Some key" by (rule map_of_is_SomeI[rotated])
    then show ?thesis
      using kn
      by (simp add: reference_entry_def entry_for_def pool_record_def key_to_citation_lookup
          missing_entry_def split: option.splits)
  qed
  then have "map_result (reference_entry (num_to_key_of m) (key_to_citation_of plan)) (map snd m)
      = Inr (map (entry_for plan) m)"
    by (intro map_result_map2) simp
  then show ?thesis by (simp add: build_references_def Let_def srt)
qed

text \<open>
  C3. The numbers bound by the renumbering are \<open>1, 2, ..., N\<close> in this order, and the
  reference list has one entry for each, in the same order, whatever the citation plan; no
  exception is raised. The entry of number \<open>n\<close> bound to identity \<open>key\<close> is \<open>n\<close>, a period, a
  space and the formatted record when the pool has a record whose PMID or DOI identity is
  \<open>key\<close> (the last such record of the pool); otherwise it is \<open>n\<close>, a period, a space, \<open>key\<close>
  and the missing-metadata flag.
\<close>

theorem one_reference_per_number:
  "\<exists>numbered key_to_num next_num.
     number_drafts jrnl drafts incl = Inr (numbered, key_to_num, next_num)
     \<and> map snd key_to_num = [1..int (length key_to_num)]
     \<and> number_drafts_and_build_references jrnl drafts plan incl =
         Inr (numbered, map (entry_for plan) key_to_num)"
proof -
  from number_drafts_numbering [of jrnl drafts incl] obtain numbered m' n'
    where r: "number_drafts jrnl drafts incl = Inr (numbered, m', n')"
      and inv: "numbering_of m' n' (text_keys (section_texts drafts (section_order incl drafts)))"
    by blast
  from inv have v: "map snd m' = [1..int (length m')]" by (simp add: numbering_of_def)
  then have "build_references m' plan = Inr (map (entry_for plan) m')"
    by (rule build_references_entries)
  with r have "number_drafts_and_build_references jrnl drafts plan incl =
      Inr (numbered, map (entry_for plan) m')"
    by (simp add: number_drafts_and_build_references_def)
  with r v show ?thesis by blast
qed

lemma scenario_numbering:
  "number_sections ''bracket'' scenario_drafts
     [''Introduction'', ''Methods'', ''Results'', ''Discussion'', ''Conclusion''] [] [] 1 =
   Inr ([(''Introduction'', ''Prior work [1] showed X. [2] confirmed it.''),
         (''Methods'', ''We repeated [1].'')],
        [(''PMID:111'', 1), (''DOI:10.1/ab'', 2)], 3)"
  by code_simp

lemma str_int_1: "str_int 1 = ''1''"
  by code_simp

lemma str_int_2: "str_int 2 = ''2''"
  by code_simp

text \<open>
  C1. The end-to-end scenario: with bracket style, for every citation plan and either value
  of the abstract switch, the two drafts come back as
  \<open>Prior work [1] showed X. [2] confirmed it.\<close> and \<open>We repeated [1].\<close>, and the reference
  list has exactly two entries, the first numbered 1 and the second numbered 2.
\<close>

theorem end_to_end_scenario:
  "in_text_format (references jrnl) = ''bracket'' \<longrightarrow>
     (\<exists>r1 r2. number_drafts_and_build_references jrnl scenario_drafts plan incl =
        Inr ([(''Introduction'', ''Prior work [1] showed X. [2] confirmed it.''),
              (''Methods'', ''We repeated [1].'')],
             [''1. '' @ r1, ''2. '' @ r2]))"
proof
  assume b: "in_text_format (references jrnl) = ''bracket''"
  have o: "section_order incl scenario_drafts =
      [''Introduction'', ''Methods'', ''Results'', ''Discussion'', ''Conclusion'']"
    by (simp add: section_order_def scenario_drafts_def)
  have n: "number_drafts jrnl scenario_drafts incl =
      Inr ([(''Introduction'', ''Prior work [1] showed X. [2] confirmed it.''),
            (''Methods'', ''We repeated [1].'')],
           [(''PMID:111'', 1), (''DOI:10.1/ab'', 2)], 3)"
    unfolding number_drafts_def b o by (rule scenario_numbering)
  have "build_references [(''PMID:111'', 1), (''DOI:10.1/ab'', 2)] plan =
      Inr (map (entry_for plan) [(''PMID:111'', 1), (''DOI:10.1/ab'', 2)])"
    by (rule build_references_entries) (simp add: upto.simps)
  moreover have "\<exists>r. entry_for plan (''PMID:111'', 1) = ''1. '' @ r"
    by (simp add: entry_for_def str_int_1 split: option.splits)
  moreover have "\<exists>r. entry_for plan (''DOI:10.1/ab'', 2) = ''2. '' @ r"
    by (simp add: entry_for_def str_int_2 split: option.splits)
  ultimately obtain r1 r2 where
    "build_references [(''PMID:111'', 1), (''DOI:10.1/ab'', 2)] plan = Inr [''1. '' @ r1, ''2. '' @ r2]"
    by auto
  with n show "\<exists>r1 r2. number_drafts_and_build_references jrnl scenario_drafts plan incl =
        Inr ([(''Introduction'', ''Prior work [1] showed X. [2] confirmed it.''),
              (''Methods'', ''We repeated [1].'')],
             [''1. '' @ r1, ''2. '' @ r2])"
    by (simp add: number_drafts_and_build_references_def)
qed



theorem one_reference_per_number_witness:
  "number_drafts_and_build_references bracket_journal scenario_drafts trial_plan False =
     Inr ([(''Introduction'', ''Prior work [1] showed X. [2] confirmed it.''),
           (''Methods'', ''We repeated [1].'')],
          [''1. Kim J, Lee S. A trial. J X. 2020;12(3):1-9.'',
           ''2. DOI:10.1/ab (Missing metadata; please fix in CitationPlan).''])"
proof -
  have n: "number_drafts bracket_journal scenario_drafts False =
      Inr ([(''Introduction'', ''Prior work [1] showed X. [2] confirmed it.''),
            (''Methods'', ''We repeated [1].'')],
           [(''PMID:111'', 1), (''DOI:10.1/ab'', 2)], 3)"
    by code_simp
  have e: "map (entry_for trial_plan) [(''PMID:111'', 1), (''DOI:10.1/ab'', 2)] =
      [''1. Kim J, Lee S. A trial. J X. 2020;12(3):1-9.'',
       ''2. DOI:10.1/ab (Missing metadata; please fix in CitationPlan).'']"
    by code_simp
  from one_reference_per_number [of bracket_journal scenario_drafts False trial_plan]
  obtain numbered key_to_num next_num where
    "number_drafts bracket_journal scenario_drafts False = Inr (numbered, key_to_num, next_num)"
    and "number_drafts_and_build_references bracket_journal scenario_drafts trial_plan False =
         Inr (numbered, map (entry_for trial_plan) key_to_num)"
    by blast
  with n e show ?thesis by simp
qed

theorem end_to_end_scenario_witness:
  "number_drafts_and_build_references bracket_journal scenario_drafts
       \<lparr>plan_max_count = 30, selected = []\<rparr> False =
     Inr ([(''Introduction'', ''Prior work [1] showed X. [2] confirmed it.''),
           (''Methods'', ''We repeated [1].'')],
          [''1. PMID:111 (Missing metadata; please fix in CitationPlan).'',
           ''2. DOI:10.1/ab (Missing metadata; please fix in CitationPlan).''])"
proof -
  let ?plan = "\<lparr>plan_max_count = 30, selected = []\<rparr>"
  have b: "in_text_format (references bracket_journal) = ''bracket''"
    by (simp add: bracket_journal_def)
  with end_to_end_scenario [of bracket_journal ?plan False] obtain r1 r2 where
    "number_drafts_and_build_references bracket_journal scenario_drafts ?plan False =
        Inr ([(''Introduction'', ''Prior work [1] showed X. [2] confirmed it.''),
              (''Methods'', ''We repeated [1].'')],
             [''1. '' @ r1, ''2. '' @ r2])"
    by blast
  moreover have "number_drafts_and_build_references bracket_journal scenario_drafts ?plan False =
     Inr ([(''Introduction'', ''Prior work [1] showed X. [2] confirmed it.''),
           (''Methods'', ''We repeated [1].'')],
          [''1. PMID:111 (Missing metadata; please fix in CitationPlan).'',
           ''2. DOI:10.1/ab (Missing metadata; please fix in CitationPlan).''])"
    by code_simp
  ultimately show ?thesis by simp
qed

section \<open>Malformed placeholders\<close>

lemma append_sep_eq:
  assumes "a @ c # x = b @ c # y" and "c \<notin> set a" and "c \<notin> set b"
  shows "a = b \<and> x = y"
  using assms
proof (induction a arbitrary: b)
  case Nil
  then show ?case by (cases b) auto
next
  case (Cons u a)
  then show ?case by (cases b) auto
qed

lemma match_ident_iff:
  "match_ident s = Some (i, r) \<longleftrightarrow> i \<noteq> [] \<and> CHR ''}'' \<notin> set i \<and> s = i @ CHR ''}'' # r"
proof
  let ?P = "\<lambda>c. c \<noteq> CHR ''}''"
  assume "match_ident s = Some (i, r)"
  then have i: "i = takeWhile ?P s" and ne: "i \<noteq> []" and d: "dropWhile ?P s \<noteq> []"
    and r: "r = tl (dropWhile ?P s)"
    by (auto simp: match_ident_def Let_def split: if_splits)
  from d have "\<not> ?P (hd (dropWhile ?P s))" by (rule hd_dropWhile)
  with d r have dr: "dropWhile ?P s = CHR ''}'' # r" by (cases "dropWhile ?P s") auto
  have "s = takeWhile ?P s @ dropWhile ?P s" by simp
  with i dr have s: "s = i @ CHR ''}'' # r" by simp
  have "\<forall>x\<in>set (takeWhile ?P s). ?P x" by (metis set_takeWhileD)
  with i have "CHR ''}'' \<notin> set i" by auto
  with ne s show "i \<noteq> [] \<and> CHR ''}'' \<notin> set i \<and> s = i @ CHR ''}'' # r" by simp
next
  let ?P = "\<lambda>c. c \<noteq> CHR ''}''"
  assume a: "i \<noteq> [] \<and> CHR ''}'' \<notin> set i \<and> s = i @ CHR ''}'' # r"
  then have all: "\<forall>x\<in>set i. ?P x" by auto
  from all have t: "takeWhile ?P (i @ CHR ''}'' # r) = i" by (simp add: takeWhile_append)
  from all have d: "dropWhile ?P (i @ CHR ''}'' # r) = CHR ''}'' # r"
    by (simp add: dropWhile_append)
  from a t d show "match_ident s = Some (i, r)" by (simp add: match_ident_def Let_def)
qed

lemma cite_match_iff:
  "cite_match s = Some (k, i, r) \<longleftrightarrow>
     (k = ''PMID'' \<or> k = ''DOI'') \<and> i \<noteq> [] \<and> CHR ''}'' \<notin> set i
     \<and> s = ''{cite:'' @ k @ '':'' @ i @ ''}'' @ r"
proof
  assume m: "cite_match s = Some (k, i, r)"
  then obtain s1 where s1: "s = ''{cite:'' @ s1"
    by (auto simp: cite_match_def strip_prefix_def prefix_def split: option.splits if_splits)
  then have sp: "strip_prefix ''{cite:'' s = Some s1" by (simp add: strip_prefix_def)
  show "(k = ''PMID'' \<or> k = ''DOI'') \<and> i \<noteq> [] \<and> CHR ''}'' \<notin> set i
     \<and> s = ''{cite:'' @ k @ '':'' @ i @ ''}'' @ r"
  proof (cases "strip_prefix ''PMID:'' s1")
    case (Some s2)
    then have s2: "s1 = ''PMID:'' @ s2"
      by (auto simp: strip_prefix_def prefix_def split: if_splits)
    from m sp Some have "k = ''PMID''" and "match_ident s2 = Some (i, r)"
      by (auto simp: cite_match_def)
    then show ?thesis using s1 s2 by (simp add: match_ident_iff)
  next
    case None
    with m sp obtain s2 where d: "strip_prefix ''DOI:'' s1 = Some s2"
      by (auto simp: cite_match_def split: option.splits)
    then have s2: "s1 = ''DOI:'' @ s2"
      by (auto simp: strip_prefix_def prefix_def split: if_splits)
    from m sp None d have "k = ''DOI''" and "match_ident s2 = Some (i, r)"
      by (auto simp: cite_match_def)
    then show ?thesis using s1 s2 by (simp add: match_ident_iff)
  qed
next
  assume a: "(k = ''PMID'' \<or> k = ''DOI'') \<and> i \<noteq> [] \<and> CHR ''}'' \<notin> set i
     \<and> s = ''{cite:'' @ k @ '':'' @ i @ ''}'' @ r"
  then have mi: "match_ident (i @ CHR ''}'' # r) = Some (i, r)" by (simp add: match_ident_iff)
  from a consider "k = ''PMID''" | "k = ''DOI''" by blast
  then show "cite_match s = Some (k, i, r)"
  proof cases
    case 1
    with a have "s = ''{cite:PMID:'' @ (i @ CHR ''}'' # r)" by simp
    then show ?thesis using 1 mi by (simp add: cite_match_def strip_prefix_def)
  next
    case 2
    with a have "s = ''{cite:DOI:'' @ (i @ CHR ''}'' # r)" by simp
    then show ?thesis using 2 mi by (simp add: cite_match_def strip_prefix_def)
  qed
qed

lemma no_brace_no_match:
  assumes "CHR ''}'' \<notin> set s"
  shows "cite_match s = None"
proof (rule ccontr)
  assume "cite_match s \<noteq> None"
  then obtain k i r where "cite_match s = Some (k, i, r)" by auto
  then have "s = ''{cite:'' @ k @ '':'' @ i @ ''}'' @ r" by (simp add: cite_match_iff)
  then have "CHR ''}'' \<in> set s" by simp
  with assms show False by simp
qed

lemma unknown_kind_no_match:
  assumes "kind \<noteq> ''PMID''" and "kind \<noteq> ''DOI''" and "CHR '':'' \<notin> set kind"
  shows "cite_match (''{cite:'' @ kind @ '':'' @ rest) = None"
proof (rule ccontr)
  assume "cite_match (''{cite:'' @ kind @ '':'' @ rest) \<noteq> None"
  then obtain k i r where "cite_match (''{cite:'' @ kind @ '':'' @ rest) = Some (k, i, r)"
    by auto
  then have k: "k = ''PMID'' \<or> k = ''DOI''"
    and e: "''{cite:'' @ kind @ '':'' @ rest = ''{cite:'' @ k @ '':'' @ i @ ''}'' @ r"
    by (simp_all add: cite_match_iff)
  from e have e': "kind @ CHR '':'' # rest = k @ CHR '':'' # (i @ ''}'' @ r)" by simp
  from k have nk: "CHR '':'' \<notin> set k" by auto
  from append_sep_eq [OF e' assms(3) nk] have "kind = k" by (rule conjunct1)
  with k assms(1,2) show False by simp
qed

lemma match_append:
  assumes "cite_match s = Some (k, i, r)"
  shows "cite_match (s @ t) = Some (k, i, r @ t)"
  using assms by (simp add: cite_match_iff)

lemma match_in_prefix:
  assumes "cite_match (s @ t) = Some (k, i, r)" and "CHR ''}'' \<in> set s"
  shows "\<exists>r'. cite_match s = Some (k, i, r')"
proof -
  from assms(1) have k: "k = ''PMID'' \<or> k = ''DOI''" and i: "i \<noteq> []"
    and ni: "CHR ''}'' \<notin> set i"
    and e: "s @ t = ''{cite:'' @ k @ '':'' @ i @ ''}'' @ r"
    by (simp_all add: cite_match_iff)
  from assms(2) obtain s1 s2 where s: "s = s1 @ CHR ''}'' # s2" and n1: "CHR ''}'' \<notin> set s1"
    using split_list_first [of "CHR ''}''" s] by blast
  from e s have e': "s1 @ CHR ''}'' # (s2 @ t) = (''{cite:'' @ k @ '':'' @ i) @ CHR ''}'' # r"
    by simp
  from k ni have na: "CHR ''}'' \<notin> set (''{cite:'' @ k @ '':'' @ i)" by auto
  from append_sep_eq [OF e' n1 na] have "s1 = ''{cite:'' @ k @ '':'' @ i"
    by (rule conjunct1)
  with s have "s = ''{cite:'' @ k @ '':'' @ i @ ''}'' @ s2" by simp
  with k i ni have "cite_match s = Some (k, i, s2)" by (simp add: cite_match_iff)
  then show ?thesis by blast
qed

lemma no_match_append:
  assumes "cite_match s = None" and "CHR ''}'' \<in> set s \<or> CHR ''}'' \<notin> set t"
  shows "cite_match (s @ t) = None"
proof (rule ccontr)
  assume "cite_match (s @ t) \<noteq> None"
  then obtain k i r where m: "cite_match (s @ t) = Some (k, i, r)" by auto
  then have "s @ t = ''{cite:'' @ k @ '':'' @ i @ ''}'' @ r" by (simp add: cite_match_iff)
  then have "CHR ''}'' \<in> set (s @ t)" by simp
  with assms(2) have "CHR ''}'' \<in> set s" by auto
  with m obtain r' where "cite_match s = Some (k, i, r')" using match_in_prefix by blast
  with assms(1) show False by simp
qed

lemma match_starts_with_brace:
  assumes "c \<noteq> CHR ''{''"
  shows "cite_match (c # cs) = None"
proof (rule ccontr)
  assume "cite_match (c # cs) \<noteq> None"
  then obtain k i r where "cite_match (c # cs) = Some (k, i, r)" by auto
  then have "c # cs = ''{cite:'' @ k @ '':'' @ i @ ''}'' @ r" by (simp add: cite_match_iff)
  with assms show False by simp
qed

lemma scan_no_match: "cite_match (c # cs) = None \<Longrightarrow> cite_scan (c # cs) = Lit c # cite_scan cs"
  by (simp add: cite_scan.simps(2))

lemma scan_match:
  "cite_match (c # cs) = Some (k, i, r) \<Longrightarrow> cite_scan (c # cs) = Cite k i # cite_scan r"
  by (simp add: cite_scan.simps(2))

lemma scan_literals:
  assumes "CHR ''{'' \<notin> set u"
  shows "cite_scan (u @ post) = map Lit u @ cite_scan post"
  using assms
proof (induction u)
  case Nil
  then show ?case by simp
next
  case (Cons c u)
  then have "c \<noteq> CHR ''{''" by auto
  then have "cite_match (c # (u @ post)) = None" by (rule match_starts_with_brace)
  then have "cite_scan (c # (u @ post)) = Lit c # cite_scan (u @ post)" by (rule scan_no_match)
  with Cons show ?case by simp
qed

lemma scan_no_brace:
  assumes "CHR ''}'' \<notin> set u"
  shows "cite_scan u = map Lit u"
  using assms
proof (induction u)
  case Nil
  then show ?case by simp
next
  case (Cons c u)
  then have "cite_match (c # u) = None" by (intro no_brace_no_match)
  then have "cite_scan (c # u) = Lit c # cite_scan u" by (rule scan_no_match)
  with Cons show ?case by simp
qed

lemma scan_append_no_brace:
  assumes "CHR ''}'' \<notin> set rest"
  shows "cite_scan (pre @ rest) = cite_scan pre @ map Lit rest"
proof (induction pre rule: cite_scan.induct)
  case 1
  from assms show ?case by (simp add: scan_no_brace)
next
  case (2 c cs)
  show ?case
  proof (cases "cite_match (c # cs)")
    case None
    with assms have "cite_match ((c # cs) @ rest) = None" by (intro no_match_append) simp_all
    then have "cite_scan ((c # cs) @ rest) = Lit c # cite_scan (cs @ rest)"
      using scan_no_match [of c "cs @ rest"] by simp
    moreover from None have "cite_scan (c # cs) = Lit c # cite_scan cs" by (rule scan_no_match)
    moreover from None have "cite_scan (cs @ rest) = cite_scan cs @ map Lit rest" by (rule 2(1))
    ultimately show ?thesis by simp
  next
    case (Some x)
    obtain k i r where x: "x = (k, i, r)" by (cases x)
    with Some have m: "cite_match (c # cs) = Some (k, i, r)" by simp
    then have "cite_match ((c # cs) @ rest) = Some (k, i, r @ rest)" by (rule match_append)
    then have "cite_scan ((c # cs) @ rest) = Cite k i # cite_scan (r @ rest)"
      using scan_match [of c "cs @ rest" k i "r @ rest"] by simp
    moreover from m have "cite_scan (c # cs) = Cite k i # cite_scan r" by (rule scan_match)
    moreover have "cite_scan (r @ rest) = cite_scan r @ map Lit rest"
      using Some x by (intro 2(2) [of x k "(i, r)" i r]) simp_all
    ultimately show ?thesis by simp
  qed
qed

lemma closed_text_suffix:
  assumes "closed_text (a @ b)"
  shows "closed_text b"
proof -
  let ?P = "\<lambda>c. c \<noteq> CHR ''}''"
  have sub: "set (takeWhile ?P (rev b)) \<subseteq> set (takeWhile ?P (rev b @ rev a))"
  proof (cases "\<forall>x\<in>set (rev b). ?P x")
    case True
    then have "takeWhile ?P (rev b @ rev a) = rev b @ takeWhile ?P (rev a)"
      by (intro takeWhile_append2) blast
    moreover have "set (takeWhile ?P (rev b)) \<subseteq> set (rev b)"
      using set_takeWhileD by fastforce
    ultimately show ?thesis by auto
  next
    case False
    then obtain x where "x \<in> set (rev b)" and "\<not> ?P x" by blast
    then have "takeWhile ?P (rev b @ rev a) = takeWhile ?P (rev b)"
      by (rule takeWhile_append1)
    then show ?thesis by simp
  qed
  from assms have "CHR ''{'' \<notin> set (takeWhile ?P (rev b @ rev a))"
    by (simp add: closed_text_def)
  with sub have "CHR ''{'' \<notin> set (takeWhile ?P (rev b))" by blast
  then show ?thesis by (simp add: closed_text_def)
qed

lemma closed_text_brace:
  assumes "closed_text (CHR ''{'' # cs)"
  shows "CHR ''}'' \<in> set cs"
proof (rule ccontr)
  let ?P = "\<lambda>c. c \<noteq> CHR ''}''"
  assume n: "CHR ''}'' \<notin> set cs"
  then have "takeWhile ?P (rev cs @ [CHR ''{'']) = rev cs @ takeWhile ?P [CHR ''{'']"
    by (intro takeWhile_append2) auto
  then have "takeWhile ?P (rev cs @ [CHR ''{'']) = rev cs @ [CHR ''{'']" by simp
  with assms show False by (simp add: closed_text_def)
qed

lemma scan_append_closed:
  assumes "closed_text pre"
  shows "cite_scan (pre @ post) = cite_scan pre @ cite_scan post"
  using assms
proof (induction pre rule: cite_scan.induct)
  case 1
  show ?case by simp
next
  case (2 c cs)
  from 2(3) have ccs: "closed_text cs" using closed_text_suffix [of "[c]" cs] by simp
  show ?case
  proof (cases "cite_match (c # cs)")
    case None
    have "cite_match ((c # cs) @ post) = None"
    proof (cases "c = CHR ''{''")
      case True
      with 2(3) have "CHR ''}'' \<in> set cs" by (intro closed_text_brace) simp
      with None show ?thesis by (intro no_match_append) simp_all
    next
      case False
      then show ?thesis using match_starts_with_brace [of c "cs @ post"] by simp
    qed
    then have "cite_scan ((c # cs) @ post) = Lit c # cite_scan (cs @ post)"
      using scan_no_match [of c "cs @ post"] by simp
    moreover from None have "cite_scan (c # cs) = Lit c # cite_scan cs" by (rule scan_no_match)
    moreover from None ccs have "cite_scan (cs @ post) = cite_scan cs @ cite_scan post"
      by (rule 2(1))
    ultimately show ?thesis by simp
  next
    case (Some x)
    obtain k i r where x: "x = (k, i, r)" by (cases x)
    with Some have m: "cite_match (c # cs) = Some (k, i, r)" by simp
    then have "c # cs = (''{cite:'' @ k @ '':'' @ i @ ''}'') @ r" by (simp add: cite_match_iff)
    with 2(3) have cr: "closed_text r"
      using closed_text_suffix [of "''{cite:'' @ k @ '':'' @ i @ ''}''" r] by simp
    from m have "cite_match ((c # cs) @ post) = Some (k, i, r @ post)" by (rule match_append)
    then have "cite_scan ((c # cs) @ post) = Cite k i # cite_scan (r @ post)"
      using scan_match [of c "cs @ post" k i "r @ post"] by simp
    moreover from m have "cite_scan (c # cs) = Cite k i # cite_scan r" by (rule scan_match)
    moreover have "cite_scan (r @ post) = cite_scan r @ cite_scan post"
      using Some x cr by (intro 2(2) [of x k "(i, r)" i r]) simp_all
    ultimately show ?thesis by simp
  qed
qed

lemma repl_Inr: "\<exists>r m' n'. repl fmt m n kind ident = Inr (r, m', n')"
proof (cases "map_of m (cite_key kind ident)")
  case None
  have "map_of (AList.update (cite_key kind ident) n m) (cite_key kind ident) = Some n"
    by (simp add: update_conv')
  with None show ?thesis by (simp add: repl_def Let_def)
next
  case (Some num)
  then show ?thesis by (simp add: repl_def Let_def)
qed

lemma sub_pieces_Inr: "\<exists>out m' n'. sub_pieces fmt ps m n = Inr (out, m', n')"
proof (induction ps arbitrary: m n)
  case Nil
  show ?case by simp
next
  case (Cons p ps)
  show ?case
  proof (cases p)
    case (Lit c)
    from Cons [of m n] obtain out m' n' where "sub_pieces fmt ps m n = Inr (out, m', n')"
      by blast
    with Lit show ?thesis by simp
  next
    case (Cite kind ident)
    obtain r m1 n1 where r: "repl fmt m n kind ident = Inr (r, m1, n1)"
      using repl_Inr by blast
    from Cons [of m1 n1] obtain out m' n' where "sub_pieces fmt ps m1 n1 = Inr (out, m', n')"
      by blast
    with Cite r show ?thesis by simp
  qed
qed

lemma sub_pieces_literals: "sub_pieces fmt (map Lit u) m n = Inr (u, m, n)"
  by (induction u) simp_all

lemma sub_pieces_append:
  assumes "sub_pieces fmt ps m n = Inr (o1, m1, n1)"
    and "sub_pieces fmt qs m1 n1 = Inr (o2, m2, n2)"
  shows "sub_pieces fmt (ps @ qs) m n = Inr (o1 @ o2, m2, n2)"
  using assms
proof (induction ps arbitrary: m n o1)
  case Nil
  then show ?case by simp
next
  case (Cons p ps)
  show ?case
  proof (cases p)
    case (Lit c)
    obtain out m' n' where s: "sub_pieces fmt ps m n = Inr (out, m', n')"
      using sub_pieces_Inr by blast
    with Cons.prems(1) Lit have "o1 = c # out" and "m' = m1" and "n' = n1" by simp_all
    with s Cons.prems(2) have "sub_pieces fmt (ps @ qs) m n = Inr (out @ o2, m2, n2)"
      by (intro Cons.IH) simp_all
    then show ?thesis using Lit \<open>o1 = c # out\<close> by simp
  next
    case (Cite kind ident)
    obtain r ma na where r: "repl fmt m n kind ident = Inr (r, ma, na)"
      using repl_Inr by blast
    obtain out m' n' where s: "sub_pieces fmt ps ma na = Inr (out, m', n')"
      using sub_pieces_Inr by blast
    with Cons.prems(1) Cite r have "o1 = r @ out" and "m' = m1" and "n' = n1" by simp_all
    with s Cons.prems(2) have "sub_pieces fmt (ps @ qs) ma na = Inr (out @ o2, m2, n2)"
      by (intro Cons.IH) simp_all
    then show ?thesis using Cite r \<open>o1 = r @ out\<close> by simp
  qed
qed

lemma re_number_citations_Inr:
  "\<exists>out m' n'. re_number_citations text m n fmt = Inr (out, m', n')"
  unfolding re_number_citations_def by (rule sub_pieces_Inr)

text \<open>
  C9, as the code has it. Renumbering a text raises no exception, whatever the numbering it
  starts from. A tail of the text with no closing brace in it (an unterminated tag and all
  that follows) is not matched; it is copied as it stands after the renumbered text before
  it, and the numbering and the counter are those reached before it. A tag whose kind, the
  text between \<open>{cite:\<close> and the next colon, is neither \<open>PMID\<close> nor \<open>DOI\<close> is not matched at
  its opening brace; when the tag holds no other opening brace and the text before it leaves
  no tag open, the tag is copied as it stands between the renumbered texts before and after
  it, and the text after it starts from the numbering and the counter reached before it.
\<close>

theorem malformed_placeholder_literal:
  "(\<exists>out m' n'. re_number_citations text m n fmt = Inr (out, m', n'))
   \<and> (CHR ''}'' \<notin> set rest \<longrightarrow>
        cite_match rest = None
        \<and> (\<forall>out m' n'. re_number_citations pre m n fmt = Inr (out, m', n') \<longrightarrow>
              re_number_citations (pre @ rest) m n fmt = Inr (out @ rest, m', n')))
   \<and> (kind \<noteq> ''PMID'' \<and> kind \<noteq> ''DOI'' \<and> CHR '':'' \<notin> set kind \<longrightarrow>
        cite_match (''{cite:'' @ kind @ '':'' @ rest) = None
        \<and> (CHR ''{'' \<notin> set kind \<and> CHR ''{'' \<notin> set ident \<and> closed_text pre \<longrightarrow>
            (\<forall>o1 m1 n1 o2 m2 n2.
               re_number_citations pre m n fmt = Inr (o1, m1, n1)
               \<and> re_number_citations post m1 n1 fmt = Inr (o2, m2, n2) \<longrightarrow>
               re_number_citations (pre @ ''{cite:'' @ kind @ '':'' @ ident @ ''}'' @ post) m n fmt =
                 Inr (o1 @ ''{cite:'' @ kind @ '':'' @ ident @ ''}'' @ o2, m2, n2))))"
proof (intro conjI impI allI)
  show "\<exists>out m' n'. re_number_citations text m n fmt = Inr (out, m', n')"
    by (rule re_number_citations_Inr)
next
  assume "CHR ''}'' \<notin> set rest"
  then show "cite_match rest = None" by (rule no_brace_no_match)
next
  fix out m' n'
  assume nb: "CHR ''}'' \<notin> set rest"
    and r: "re_number_citations pre m n fmt = Inr (out, m', n')"
  from nb have sc: "cite_scan (pre @ rest) = cite_scan pre @ map Lit rest"
    by (rule scan_append_no_brace)
  from r have "sub_pieces fmt (cite_scan pre) m n = Inr (out, m', n')"
    by (simp add: re_number_citations_def)
  then have "sub_pieces fmt (cite_scan pre @ map Lit rest) m n = Inr (out @ rest, m', n')"
    using sub_pieces_literals by (rule sub_pieces_append)
  then show "re_number_citations (pre @ rest) m n fmt = Inr (out @ rest, m', n')"
    by (simp add: re_number_citations_def sc)
next
  assume "kind \<noteq> ''PMID'' \<and> kind \<noteq> ''DOI'' \<and> CHR '':'' \<notin> set kind"
  then show "cite_match (''{cite:'' @ kind @ '':'' @ rest) = None"
    by (intro unknown_kind_no_match) simp_all
next
  fix o1 m1 n1 o2 m2 n2
  let ?u = "''cite:'' @ kind @ '':'' @ ident @ ''}''"
  assume k: "kind \<noteq> ''PMID'' \<and> kind \<noteq> ''DOI'' \<and> CHR '':'' \<notin> set kind"
    and b: "CHR ''{'' \<notin> set kind \<and> CHR ''{'' \<notin> set ident \<and> closed_text pre"
    and r: "re_number_citations pre m n fmt = Inr (o1, m1, n1)
               \<and> re_number_citations post m1 n1 fmt = Inr (o2, m2, n2)"
  from k have "cite_match (''{cite:'' @ kind @ '':'' @ (ident @ ''}'' @ post)) = None"
    by (intro unknown_kind_no_match) simp_all
  then have "cite_match (CHR ''{'' # (?u @ post)) = None" by simp
  then have "cite_scan (CHR ''{'' # (?u @ post)) = Lit CHR ''{'' # cite_scan (?u @ post)"
    by (rule scan_no_match)
  moreover from b have "CHR ''{'' \<notin> set ?u" by simp
  then have "cite_scan (?u @ post) = map Lit ?u @ cite_scan post" by (rule scan_literals)
  ultimately have tag: "cite_scan ((CHR ''{'' # ?u) @ post) = map Lit (CHR ''{'' # ?u) @ cite_scan post"
    by simp
  from b have "cite_scan (pre @ ((CHR ''{'' # ?u) @ post)) =
      cite_scan pre @ cite_scan ((CHR ''{'' # ?u) @ post)"
    by (intro scan_append_closed) simp
  with tag have sc: "cite_scan (pre @ (CHR ''{'' # ?u) @ post) =
      cite_scan pre @ (map Lit (CHR ''{'' # ?u) @ cite_scan post)"
    by simp
  from r have p2: "sub_pieces fmt (cite_scan post) m1 n1 = Inr (o2, m2, n2)"
    by (simp add: re_number_citations_def)
  have t2: "sub_pieces fmt (map Lit (CHR ''{'' # ?u) @ cite_scan post) m1 n1 =
      Inr ((CHR ''{'' # ?u) @ o2, m2, n2)"
    using sub_pieces_literals p2 by (rule sub_pieces_append)
  from r have p1: "sub_pieces fmt (cite_scan pre) m n = Inr (o1, m1, n1)"
    by (simp add: re_number_citations_def)
  have "sub_pieces fmt (cite_scan pre @ (map Lit (CHR ''{'' # ?u) @ cite_scan post)) m n =
      Inr (o1 @ (CHR ''{'' # ?u) @ o2, m2, n2)"
    using p1 t2 by (rule sub_pieces_append)
  then have "re_number_citations (pre @ (CHR ''{'' # ?u) @ post) m n fmt =
      Inr (o1 @ (CHR ''{'' # ?u) @ o2, m2, n2)"
    unfolding re_number_citations_def sc .
  then show "re_number_citations (pre @ ''{cite:'' @ kind @ '':'' @ ident @ ''}'' @ post) m n fmt =
                 Inr (o1 @ ''{cite:'' @ kind @ '':'' @ ident @ ''}'' @ o2, m2, n2)"
    by simp
qed

theorem malformed_placeholder_literal_witness:
  "re_number_citations ''A {cite:PMID:1} {cite:PMID:2 end'' [] 1 ''bracket'' =
     Inr (''A [1] {cite:PMID:2 end'', [(''PMID:1'', 1)], 2)
   \<and> re_number_citations ''See {cite:PMID:1} and {cite:ISBN:9} then {cite:DOI:x}.'' [] 1 ''paren'' =
     Inr (''See (1) and {cite:ISBN:9} then (2).'', [(''PMID:1'', 1), (''DOI:x'', 2)], 3)"
proof -
  have p1: "re_number_citations ''A {cite:PMID:1} '' [] 1 ''bracket'' =
      Inr (''A [1] '', [(''PMID:1'', 1)], 2)"
    by code_simp
  have nb: "CHR ''}'' \<notin> set ''{cite:PMID:2 end''" by simp
  from malformed_placeholder_literal [where m = "[]" and n = 1
      and fmt = "''bracket''" and rest = "''{cite:PMID:2 end''" and pre = "''A {cite:PMID:1} ''"
      and kind = "''ISBN''" and ident = "[]" and post = "[]"]
  have "CHR ''}'' \<notin> set ''{cite:PMID:2 end'' \<longrightarrow>
        cite_match ''{cite:PMID:2 end'' = None
        \<and> (\<forall>out m' n'. re_number_citations ''A {cite:PMID:1} '' [] 1 ''bracket'' = Inr (out, m', n') \<longrightarrow>
              re_number_citations (''A {cite:PMID:1} '' @ ''{cite:PMID:2 end'') [] 1 ''bracket'' =
                Inr (out @ ''{cite:PMID:2 end'', m', n'))"
    by (rule conjunct1 [OF conjunct2])
  note u = mp [OF this nb, THEN conjunct2, THEN spec, THEN spec, THEN spec, THEN mp, OF p1]
  from u have 1: "re_number_citations ''A {cite:PMID:1} {cite:PMID:2 end'' [] 1 ''bracket'' =
     Inr (''A [1] {cite:PMID:2 end'', [(''PMID:1'', 1)], 2)"
    by simp
  have q1: "re_number_citations ''See {cite:PMID:1} and '' [] 1 ''paren'' =
      Inr (''See (1) and '', [(''PMID:1'', 1)], 2)"
    by code_simp
  have q2: "re_number_citations '' then {cite:DOI:x}.'' [(''PMID:1'', 1)] 2 ''paren'' =
      Inr ('' then (2).'', [(''PMID:1'', 1), (''DOI:x'', 2)], 3)"
    by code_simp
  have k: "''ISBN'' \<noteq> ''PMID'' \<and> ''ISBN'' \<noteq> ''DOI'' \<and> CHR '':'' \<notin> set ''ISBN''" by simp
  have b: "CHR ''{'' \<notin> set ''ISBN'' \<and> CHR ''{'' \<notin> set ''9''
      \<and> closed_text ''See {cite:PMID:1} and ''"
    by (simp add: closed_text_def)
  from malformed_placeholder_literal [where m = "[]" and n = 1
      and fmt = "''paren''" and rest = "''9}''" and pre = "''See {cite:PMID:1} and ''"
      and kind = "''ISBN''" and ident = "''9''" and post = "'' then {cite:DOI:x}.''"]
  have "''ISBN'' \<noteq> ''PMID'' \<and> ''ISBN'' \<noteq> ''DOI'' \<and> CHR '':'' \<notin> set ''ISBN'' \<longrightarrow>
        cite_match (''{cite:'' @ ''ISBN'' @ '':'' @ ''9}'') = None
        \<and> (CHR ''{'' \<notin> set ''ISBN'' \<and> CHR ''{'' \<notin> set ''9''
             \<and> closed_text ''See {cite:PMID:1} and '' \<longrightarrow>
            (\<forall>o1 m1 n1 o2 m2 n2.
               re_number_citations ''See {cite:PMID:1} and '' [] 1 ''paren'' = Inr (o1, m1, n1)
               \<and> re_number_citations '' then {cite:DOI:x}.'' m1 n1 ''paren'' = Inr (o2, m2, n2) \<longrightarrow>
               re_number_citations (''See {cite:PMID:1} and '' @ ''{cite:'' @ ''ISBN'' @ '':'' @ ''9'' @ ''}''
                   @ '' then {cite:DOI:x}.'') [] 1 ''paren'' =
                 Inr (o1 @ ''{cite:'' @ ''ISBN'' @ '':'' @ ''9'' @ ''}'' @ o2, m2, n2)))"
    by (rule conjunct2 [OF conjunct2])
  note v = mp [OF this k, THEN conjunct2, THEN mp, OF b, THEN spec, THEN spec, THEN spec,
      THEN spec, THEN spec, THEN spec, THEN mp, OF conjI [OF q1 q2]]
  from v have 2: "re_number_citations ''See {cite:PMID:1} and {cite:ISBN:9} then {cite:DOI:x}.'' [] 1 ''paren'' =
     Inr (''See (1) and {cite:ISBN:9} then (2).'', [(''PMID:1'', 1), (''DOI:x'', 2)], 3)"
    by simp
  from 1 2 show ?thesis by (rule conjI)
qed

text \<open>
  C9 as it is stated fails where an earlier tag is left open: the scanner takes everything up
  to the next closing brace as that tag's identifier, the unknown-kind tag included.
\<close>

theorem malformed_placeholder_counterexample:
  "re_number_citations ''see {cite:PMID:12 and {cite:ISBN:9}'' [] 1 ''bracket'' =
     Inr (''see [1]'', [(''PMID:12 and {cite:ISBN:9'', 1)], 2)
   \<and> \<not> sublist ''{cite:ISBN:9}'' ''see [1]''"
  by code_simp

section \<open>Identical texts in the similarity report\<close>

lemma fold_min_in: "fold min ys (x :: u64) \<in> set (x # ys)"
proof (induction ys arbitrary: x)
  case Nil
  show ?case by simp
next
  case (Cons y ys)
  have "fold min ys (min y x) \<in> set (min y x # ys)" by (rule Cons.IH)
  moreover have "min y x = x \<or> min y x = y" by (simp add: min_def)
  ultimately show ?case by auto
qed

lemma py_min_Inr:
  assumes "xs \<noteq> []"
  shows "\<exists>m. py_min xs = Inr m \<and> m \<in> set xs"
proof -
  from assms obtain x ys where xs: "xs = x # ys" by (cases xs) auto
  have "fold min ys x \<in> set (x # ys)" by (rule fold_min_in)
  with xs show ?thesis by (simp add: py_min_def)
qed

lemma list_index_Inr: "v \<in> set xs \<Longrightarrow> \<exists>j. list_index xs v = Inr j"
proof (induction xs)
  case Nil
  then show ?case by simp
next
  case (Cons x xs)
  show ?case
  proof (cases "x = v")
    case True
    then show ?thesis by simp
  next
    case False
    with Cons obtain j where "list_index xs v = Inr j" by auto
    with False show ?thesis by simp
  qed
qed

lemma py_slice_window:
  assumes "0 \<le> i" and "0 < w" and "i + w \<le> int (length xs)"
  shows "py_slice xs i (i + w) \<noteq> []"
proof -
  from assms have lo: "slice_bound (length xs) i = nat i"
    by (simp add: slice_bound_def min_def)
  from assms have hi: "slice_bound (length xs) (i + w) = nat (i + w)"
    by (simp add: slice_bound_def min_def)
  from assms have "length (take (nat (i + w) - nat i) (drop (nat i) xs)) = nat w"
    by simp
  with assms(2) have "take (nat (i + w) - nat i) (drop (nat i) xs) \<noteq> []" by auto
  then show ?thesis by (simp add: py_slice_def Let_def lo hi)
qed

lemma winnow_step_Inr:
  assumes "0 \<le> i" and "0 < w" and "i + w \<le> int (length hashes)"
  shows "\<exists>fps' mh' mp'. winnow_step hashes w (fps, mh, mp) i = Inr (fps', mh', mp')
           \<and> (mh = None \<or> fps \<noteq> {||} \<longrightarrow> fps' \<noteq> {||})"
proof -
  let ?wh = "py_slice hashes i (i + w)"
  from assms have ne: "?wh \<noteq> []" by (rule py_slice_window)
  from py_min_Inr [OF ne] obtain m where m: "py_min ?wh = Inr m" and mem: "m \<in> set ?wh"
    by blast
  from list_index_Inr [OF mem] obtain j where j: "list_index ?wh m = Inr j" by blast
  show ?thesis
  proof (cases "i + int j \<noteq> mp \<or> Some m \<noteq> mh")
    case True
    with m j have "winnow_step hashes w (fps, mh, mp) i = Inr (finsert m fps, Some m, i + int j)"
      by (simp add: winnow_step_def Let_def)
    then show ?thesis by simp
  next
    case False
    with m j have "winnow_step hashes w (fps, mh, mp) i = Inr (fps, mh, mp)"
      by (simp add: winnow_step_def Let_def)
    moreover from False have "mh = Some m" by simp
    ultimately show ?thesis by simp
  qed
qed

lemma winnow_loop_Inr:
  assumes "\<forall>i\<in>set js. 0 \<le> i \<and> i + w \<le> int (length hashes)" and "0 < w"
  shows "\<exists>fps' mh' mp'. winnow_loop hashes w js (fps, mh, mp) = Inr (fps', mh', mp')
           \<and> (fps \<noteq> {||} \<or> (mh = None \<and> js \<noteq> []) \<longrightarrow> fps' \<noteq> {||})"
  using assms(1)
proof (induction js arbitrary: fps mh mp)
  case Nil
  show ?case by simp
next
  case (Cons j js)
  from Cons.prems assms(2) have "0 \<le> j" and "i + w \<le> int (length hashes) \<or> True"
    and jw: "j + w \<le> int (length hashes)"
    by simp_all
  with assms(2) obtain fps1 mh1 mp1
    where s: "winnow_step hashes w (fps, mh, mp) j = Inr (fps1, mh1, mp1)"
      and n1: "mh = None \<or> fps \<noteq> {||} \<longrightarrow> fps1 \<noteq> {||}"
    using winnow_step_Inr [of j w hashes fps mh mp] by blast
  from Cons.prems have "\<forall>i\<in>set js. 0 \<le> i \<and> i + w \<le> int (length hashes)" by simp
  from Cons.IH [OF this, of fps1 mh1 mp1] obtain fps' mh' mp'
    where l: "winnow_loop hashes w js (fps1, mh1, mp1) = Inr (fps', mh', mp')"
      and n: "fps1 \<noteq> {||} \<or> (mh1 = None \<and> js \<noteq> []) \<longrightarrow> fps' \<noteq> {||}"
    by blast
  from s l have "winnow_loop hashes w (j # js) (fps, mh, mp) = Inr (fps', mh', mp')" by simp
  moreover from n1 n have "fps \<noteq> {||} \<or> (mh = None \<and> j # js \<noteq> []) \<longrightarrow> fps' \<noteq> {||}"
    by blast
  ultimately show ?case by blast
qed

lemma winnow_fingerprints_Inr:
  assumes "0 < window"
  shows "\<exists>fp. winnow_fingerprints text k window = Inr fp
           \<and> (k \<le> int (length (tokens text)) \<longrightarrow> fp \<noteq> {||})"
proof (cases "int (length (tokens text)) < k")
  case True
  then show ?thesis by (simp add: winnow_fingerprints_def)
next
  case False
  obtain hs where hs: "shingle_hashes (tokens text) k = Inr hs"
    and len: "length hs = nat (int (length (tokens text)) - k + 1)"
    using shingle_hashes_Inr by blast
  from False len have pos: "0 < length hs" by simp
  show ?thesis
  proof (cases "int (length hs) \<le> window")
    case True
    with False hs have "winnow_fingerprints text k window = Inr (fset_of_list hs)"
      by (simp add: winnow_fingerprints_def Let_def)
    moreover from pos have "fset_of_list hs \<noteq> {||}" by (cases hs) auto
    ultimately show ?thesis by simp
  next
    case big: False
    let ?js = "[0..int (length hs) - window]"
    have "\<forall>i\<in>set ?js. 0 \<le> i \<and> i + window \<le> int (length hs)" by auto
    from winnow_loop_Inr [OF this assms, of "{||}" None "- 1"] obtain fps' mh' mp'
      where l: "winnow_loop hs window ?js ({||}, None, - 1) = Inr (fps', mh', mp')"
        and n: "{||} \<noteq> ({||} :: u64 fset) \<or> (None = (None :: u64 option) \<and> ?js \<noteq> []) \<longrightarrow> fps' \<noteq> {||}"
      by blast
    from big have "?js \<noteq> []" by (simp add: upto.simps)
    with n have "fps' \<noteq> {||}" by simp
    moreover from False big hs l have "winnow_fingerprints text k window = Inr fps'"
      by (simp add: winnow_fingerprints_def Let_def)
    ultimately show ?thesis by simp
  qed
qed

lemma similarity_score_Inr: "\<exists>sc. similarity_score a b 5 4 = Inr sc"
proof -
  obtain fa where "winnow_fingerprints a 5 4 = Inr fa"
    using winnow_fingerprints_Inr [of 4 a 5] by auto
  moreover obtain fb where "winnow_fingerprints b 5 4 = Inr fb"
    using winnow_fingerprints_Inr [of 4 b 5] by auto
  ultimately show ?thesis by (simp add: similarity_score_def)
qed

lemma similarity_score_same:
  assumes "5 \<le> length (tokens t)"
  shows "similarity_score t t 5 4 = Inr 1"
proof -
  from assms obtain fp where "winnow_fingerprints t 5 4 = Inr fp" and "fp \<noteq> {||}"
    using winnow_fingerprints_Inr [of 4 t 5] by auto
  then show ?thesis by (simp add: similarity_score_def jaccard_def Let_def)
qed

lemma findall_alnum_nonempty:
  "findall_alnum s \<noteq> [] \<Longrightarrow> \<exists>c\<in>set s. is_alnum c"
proof (induction s rule: findall_alnum.induct)
  case 1
  then show ?case by simp
next
  case (2 c cs)
  show ?case
  proof (cases "is_alnum c")
    case True
    then show ?thesis by auto
  next
    case False
    with 2(3) have "findall_alnum cs \<noteq> []" by (simp add: findall_alnum.simps(2))
    with False 2(2) have "\<exists>c\<in>set cs. is_alnum c" by simp
    then show ?thesis by auto
  qed
qed

lemma set_strip: "set (strip s) \<subseteq> set s"
proof -
  have "set (dropWhile isspace (rev (dropWhile isspace s))) \<subseteq> set (rev (dropWhile isspace s))"
    using set_dropWhileD by fastforce
  moreover have "set (dropWhile isspace s) \<subseteq> set s" using set_dropWhileD by fastforce
  ultimately show ?thesis by (auto simp: strip_def)
qed

lemma set_sub_newlines: "set (sub_newlines s) \<subseteq> set s"
proof (induction s rule: sub_newlines.induct)
  case 1
  show ?case by simp
next
  case (2 c cs)
  show ?case
  proof (cases "3 \<le> length (takeWhile is_newline (c # cs))")
    case True
    then have nl: "is_newline c" by (auto split: if_splits)
    then have c: "c = CHR 0x0A" by (simp add: is_newline_def)
    from True 2(1) have "set (sub_newlines (dropWhile is_newline cs)) \<subseteq> set (dropWhile is_newline cs)"
      by simp
    moreover have "set (dropWhile is_newline cs) \<subseteq> set cs" using set_dropWhileD by fastforce
    moreover from True have "sub_newlines (c # cs) =
        CHR 0x0A # CHR 0x0A # sub_newlines (dropWhile is_newline cs)"
      by (simp add: sub_newlines.simps(2))
    ultimately show ?thesis using c by auto
  next
    case False
    with 2(2) have "set (sub_newlines cs) \<subseteq> set cs" by simp
    moreover from False have "sub_newlines (c # cs) = c # sub_newlines cs"
      by (simp add: sub_newlines.simps(2))
    ultimately show ?thesis by auto
  qed
qed

lemma set_sub_blanks: "set (sub_blanks s) \<subseteq> insert CHR '' '' (set s)"
proof (induction s rule: sub_blanks.induct)
  case 1
  show ?case by simp
next
  case (2 c cs)
  show ?case
  proof (cases "is_blank c")
    case True
    with 2(1) have "set (sub_blanks (dropWhile is_blank cs)) \<subseteq>
        insert CHR '' '' (set (dropWhile is_blank cs))"
      by simp
    moreover have "set (dropWhile is_blank cs) \<subseteq> set cs" using set_dropWhileD by fastforce
    moreover from True have "sub_blanks (c # cs) = CHR '' '' # sub_blanks (dropWhile is_blank cs)"
      by (simp add: sub_blanks.simps(2))
    ultimately show ?thesis by auto
  next
    case False
    with 2(2) have "set (sub_blanks cs) \<subseteq> insert CHR '' '' (set cs)" by simp
    moreover from False have "sub_blanks (c # cs) = c # sub_blanks cs"
      by (simp add: sub_blanks.simps(2))
    ultimately show ?thesis by auto
  qed
qed

lemma set_replace_crlf: "set (replace_crlf s) \<subseteq> set s"
  by (induction s rule: replace_crlf.induct) auto

lemma alnum_lower_not_space:
  assumes "is_alnum (lower_char c)"
  shows "\<not> isspace c"
proof
  assume sp: "isspace c"
  then have "lower_char c = c" by (auto simp: lower_char_def isspace_def Let_def)
  with assms have "is_alnum c" by simp
  with sp show False by (auto simp: is_alnum_def isspace_def Let_def)
qed

lemma tokens_not_blank:
  assumes "tokens text \<noteq> []"
  shows "\<not> (text = [] \<or> strip text = [])"
proof -
  from assms obtain c where c: "c \<in> set (normalize_whitespace (lower text))" and a: "is_alnum c"
    unfolding tokens_def using findall_alnum_nonempty by blast
  from c have "c \<in> set (sub_newlines (sub_blanks (replace_crlf (lower text))))"
    unfolding normalize_whitespace_def using set_strip by blast
  then have "c \<in> set (sub_blanks (replace_crlf (lower text)))" using set_sub_newlines by blast
  then have "c \<in> insert CHR '' '' (set (replace_crlf (lower text)))"
    using set_sub_blanks by blast
  moreover from a have "c \<noteq> CHR '' ''" by (auto simp: is_alnum_def)
  ultimately have "c \<in> set (replace_crlf (lower text))" by simp
  then have "c \<in> set (lower text)" using set_replace_crlf by blast
  then obtain d where d: "d \<in> set text" and "c = lower_char d" by (auto simp: lower_def)
  with a have "\<not> isspace d" by (intro alnum_lower_not_space) simp
  with d have "strip text \<noteq> []" by (auto simp: strip_eq_Nil)
  moreover from d have "text \<noteq> []" by auto
  ultimately show ?thesis by simp
qed

lemma compare_sources_keeps:
  "\<exists>results'. compare_sources ga ta sources th results = Inr results'
     \<and> set results \<subseteq> set results'
     \<and> ((sb, tb) \<in> set sources \<and> \<not> (tb = [] \<or> strip tb = [])
          \<and> similarity_score ta tb 5 4 = Inr sc \<and> th \<le> sc \<longrightarrow>
        \<lparr>name_a = ga, name_b = sb, score = sc\<rparr> \<in> set results')"
proof (induction sources arbitrary: results)
  case Nil
  show ?case by simp
next
  case (Cons st sources)
  obtain s' t' where st: "st = (s', t')" by (cases st)
  show ?case
  proof (cases "t' = [] \<or> strip t' = []")
    case True
    then have step: "compare_sources ga ta (st # sources) th results =
        compare_sources ga ta sources th results"
      unfolding st by simp
    from Cons [of results] obtain results' where
      r: "compare_sources ga ta sources th results = Inr results'"
      and sub: "set results \<subseteq> set results'"
      and keep: "(sb, tb) \<in> set sources \<and> \<not> (tb = [] \<or> strip tb = [])
          \<and> similarity_score ta tb 5 4 = Inr sc \<and> th \<le> sc \<longrightarrow>
        \<lparr>name_a = ga, name_b = sb, score = sc\<rparr> \<in> set results'"
      by blast
    have "(sb, tb) \<in> set (st # sources) \<and> \<not> (tb = [] \<or> strip tb = [])
          \<and> similarity_score ta tb 5 4 = Inr sc \<and> th \<le> sc \<longrightarrow>
        \<lparr>name_a = ga, name_b = sb, score = sc\<rparr> \<in> set results'"
      using keep True st by auto
    with r sub show ?thesis unfolding step by blast
  next
    case False
    obtain sc' where sc': "similarity_score ta t' 5 4 = Inr sc'"
      using similarity_score_Inr by blast
    let ?r1 = "if sc' \<ge> th then results @ [\<lparr>name_a = ga, name_b = s', score = sc'\<rparr>] else results"
    from False sc' have step: "compare_sources ga ta (st # sources) th results =
        compare_sources ga ta sources th ?r1"
      unfolding st by simp
    from Cons [of ?r1] obtain results' where
      r: "compare_sources ga ta sources th ?r1 = Inr results'"
      and sub: "set ?r1 \<subseteq> set results'"
      and keep: "(sb, tb) \<in> set sources \<and> \<not> (tb = [] \<or> strip tb = [])
          \<and> similarity_score ta tb 5 4 = Inr sc \<and> th \<le> sc \<longrightarrow>
        \<lparr>name_a = ga, name_b = sb, score = sc\<rparr> \<in> set results'"
      by blast
    from sub have sub0: "set results \<subseteq> set results'" by (auto split: if_splits)
    have "(sb, tb) \<in> set (st # sources) \<and> \<not> (tb = [] \<or> strip tb = [])
          \<and> similarity_score ta tb 5 4 = Inr sc \<and> th \<le> sc \<longrightarrow>
        \<lparr>name_a = ga, name_b = sb, score = sc\<rparr> \<in> set results'"
    proof
      assume a: "(sb, tb) \<in> set (st # sources) \<and> \<not> (tb = [] \<or> strip tb = [])
          \<and> similarity_score ta tb 5 4 = Inr sc \<and> th \<le> sc"
      show "\<lparr>name_a = ga, name_b = sb, score = sc\<rparr> \<in> set results'"
      proof (cases "(sb, tb) = st")
        case True
        with st a sc' have "sb = s'" and "sc = sc'" and "th \<le> sc'" by simp_all
        then have "\<lparr>name_a = ga, name_b = sb, score = sc\<rparr> \<in> set ?r1" by simp
        with sub show ?thesis by blast
      next
        case False
        with a have "(sb, tb) \<in> set sources" by auto
        with a keep show ?thesis by blast
      qed
    qed
    with r sub0 show ?thesis unfolding step by blast
  qed
qed

lemma compare_generated_keeps:
  "\<exists>results'. compare_generated generated sources th results = Inr results'
     \<and> set results \<subseteq> set results'
     \<and> ((ga, ta) \<in> set generated \<and> \<not> (ta = [] \<or> strip ta = [])
          \<and> (sb, tb) \<in> set sources \<and> \<not> (tb = [] \<or> strip tb = [])
          \<and> similarity_score ta tb 5 4 = Inr sc \<and> th \<le> sc \<longrightarrow>
        \<lparr>name_a = ga, name_b = sb, score = sc\<rparr> \<in> set results')"
proof (induction generated arbitrary: results)
  case Nil
  show ?case by simp
next
  case (Cons gt generated)
  obtain g' t' where gt: "gt = (g', t')" by (cases gt)
  show ?case
  proof (cases "t' = [] \<or> strip t' = []")
    case True
    then have step: "compare_generated (gt # generated) sources th results =
        compare_generated generated sources th results"
      unfolding gt by simp
    from Cons [of results] obtain results' where
      r: "compare_generated generated sources th results = Inr results'"
      and sub: "set results \<subseteq> set results'"
      and keep: "(ga, ta) \<in> set generated \<and> \<not> (ta = [] \<or> strip ta = [])
          \<and> (sb, tb) \<in> set sources \<and> \<not> (tb = [] \<or> strip tb = [])
          \<and> similarity_score ta tb 5 4 = Inr sc \<and> th \<le> sc \<longrightarrow>
        \<lparr>name_a = ga, name_b = sb, score = sc\<rparr> \<in> set results'"
      by blast
    have "(ga, ta) \<in> set (gt # generated) \<and> \<not> (ta = [] \<or> strip ta = [])
          \<and> (sb, tb) \<in> set sources \<and> \<not> (tb = [] \<or> strip tb = [])
          \<and> similarity_score ta tb 5 4 = Inr sc \<and> th \<le> sc \<longrightarrow>
        \<lparr>name_a = ga, name_b = sb, score = sc\<rparr> \<in> set results'"
      using keep True gt by auto
    with r sub show ?thesis unfolding step by blast
  next
    case False
    from compare_sources_keeps [of g' t' sources th results sb tb sc] obtain r1 where
      c1: "compare_sources g' t' sources th results = Inr r1"
      and sub1: "set results \<subseteq> set r1"
      and keep1: "(sb, tb) \<in> set sources \<and> \<not> (tb = [] \<or> strip tb = [])
          \<and> similarity_score t' tb 5 4 = Inr sc \<and> th \<le> sc \<longrightarrow>
        \<lparr>name_a = g', name_b = sb, score = sc\<rparr> \<in> set r1"
      by blast
    from False c1 have step: "compare_generated (gt # generated) sources th results =
        compare_generated generated sources th r1"
      unfolding gt by simp
    from Cons [of r1] obtain results' where
      r: "compare_generated generated sources th r1 = Inr results'"
      and sub: "set r1 \<subseteq> set results'"
      and keep: "(ga, ta) \<in> set generated \<and> \<not> (ta = [] \<or> strip ta = [])
          \<and> (sb, tb) \<in> set sources \<and> \<not> (tb = [] \<or> strip tb = [])
          \<and> similarity_score ta tb 5 4 = Inr sc \<and> th \<le> sc \<longrightarrow>
        \<lparr>name_a = ga, name_b = sb, score = sc\<rparr> \<in> set results'"
      by blast
    from sub sub1 have sub0: "set results \<subseteq> set results'" by blast
    have "(ga, ta) \<in> set (gt # generated) \<and> \<not> (ta = [] \<or> strip ta = [])
          \<and> (sb, tb) \<in> set sources \<and> \<not> (tb = [] \<or> strip tb = [])
          \<and> similarity_score ta tb 5 4 = Inr sc \<and> th \<le> sc \<longrightarrow>
        \<lparr>name_a = ga, name_b = sb, score = sc\<rparr> \<in> set results'"
    proof
      assume a: "(ga, ta) \<in> set (gt # generated) \<and> \<not> (ta = [] \<or> strip ta = [])
          \<and> (sb, tb) \<in> set sources \<and> \<not> (tb = [] \<or> strip tb = [])
          \<and> similarity_score ta tb 5 4 = Inr sc \<and> th \<le> sc"
      show "\<lparr>name_a = ga, name_b = sb, score = sc\<rparr> \<in> set results'"
      proof (cases "(ga, ta) = gt")
        case True
        with gt have "ga = g'" and "ta = t'" by simp_all
        with a keep1 have "\<lparr>name_a = ga, name_b = sb, score = sc\<rparr> \<in> set r1" by blast
        with sub show ?thesis by blast
      next
        case False
        with a have "(ga, ta) \<in> set generated" by auto
        with a keep show ?thesis by blast
      qed
    qed
    with r sub0 show ?thesis unfolding step by blast
  qed
qed

lemma similarity_score_short:
  assumes "length (tokens t) < 5"
  shows "similarity_score t t 5 4 = Inr 0"
proof -
  from assms have "winnow_fingerprints t 5 4 = Inr {||}"
    by (simp add: winnow_fingerprints_def Let_def)
  then show ?thesis by (simp add: similarity_score_def jaccard_def)
qed

text \<open>
  C4, as the code has it. \<open>similarity_report\<close> calls \<open>similarity_score\<close> with the defaults
  \<open>k = 5\<close> and \<open>window = 4\<close>. A text compared with itself scores exactly 1 when it has at
  least five tokens and exactly 0 when it has fewer: its fingerprint set is then empty, and
  \<open>jaccard\<close> of two empty sets is 0. The report raises nothing on any input, and a generated
  text and a source text that are equal and have at least five tokens appear in it as a pair
  of score 1 whenever the threshold is at most 1.
\<close>

theorem identical_long_texts_reported:
  "similarity_score t t 5 4 = Inr (if 5 \<le> length (tokens t) then 1 else 0)
   \<and> (\<exists>results. similarity_report generated sources threshold = Inr results)
   \<and> ((ga, t) \<in> set generated \<and> (sb, t) \<in> set sources \<and> 5 \<le> length (tokens t)
        \<and> threshold \<le> 1 \<longrightarrow>
      (\<exists>results. similarity_report generated sources threshold = Inr results
          \<and> \<lparr>name_a = ga, name_b = sb, score = 1\<rparr> \<in> set results))"
proof (intro conjI impI)
  show "similarity_score t t 5 4 = Inr (if 5 \<le> length (tokens t) then 1 else 0)"
  proof (cases "5 \<le> length (tokens t)")
    case True
    then show ?thesis using similarity_score_same [of t] by simp
  next
    case False
    then have "length (tokens t) < 5" by simp
    then show ?thesis using similarity_score_short [of t] by simp
  qed
next
  from compare_generated_keeps [of generated sources threshold "[]" ga t sb t 1]
  obtain rs where "compare_generated generated sources threshold [] = Inr rs" by blast
  then show "\<exists>results. similarity_report generated sources threshold = Inr results"
    by (simp add: similarity_report_def)
next
  assume a: "(ga, t) \<in> set generated \<and> (sb, t) \<in> set sources \<and> 5 \<le> length (tokens t)
        \<and> threshold \<le> 1"
  then have sc: "similarity_score t t 5 4 = Inr 1" by (intro similarity_score_same) simp
  from a have "tokens t \<noteq> []" by auto
  then have nb: "\<not> (t = [] \<or> strip t = [])" by (rule tokens_not_blank)
  from compare_generated_keeps [of generated sources threshold "[]" ga t sb t 1]
  obtain rs where r: "compare_generated generated sources threshold [] = Inr rs"
    and keep: "(ga, t) \<in> set generated \<and> \<not> (t = [] \<or> strip t = [])
          \<and> (sb, t) \<in> set sources \<and> \<not> (t = [] \<or> strip t = [])
          \<and> similarity_score t t 5 4 = Inr 1 \<and> threshold \<le> 1 \<longrightarrow>
        \<lparr>name_a = ga, name_b = sb, score = 1\<rparr> \<in> set rs"
    by blast
  from keep a nb sc have "\<lparr>name_a = ga, name_b = sb, score = 1\<rparr> \<in> set rs" by blast
  then have "\<lparr>name_a = ga, name_b = sb, score = 1\<rparr> \<in> set (rev (sort_key score (rev rs)))"
    by simp
  with r show "\<exists>results. similarity_report generated sources threshold = Inr results
            \<and> \<lparr>name_a = ga, name_b = sb, score = 1\<rparr> \<in> set results"
    by (simp add: similarity_report_def)
qed

theorem identical_long_texts_reported_witness:
  "tokens ''a b c d e f'' = [''a'', ''b'', ''c'', ''d'', ''e'', ''f'']
   \<and> similarity_score ''a b c d e f'' ''a b c d e f'' 5 4 = Inr 1
   \<and> similarity_report [(''g'', ''a b c d e f'')] [(''s'', ''a b c d e f'')] 1 =
       Inr [\<lparr>name_a = ''g'', name_b = ''s'', score = 1\<rparr>]"
proof -
  let ?t = "''a b c d e f''"
  have t: "tokens ?t = [''a'', ''b'', ''c'', ''d'', ''e'', ''f'']" by code_simp
  have e: "similarity_report [(''g'', ?t)] [(''s'', ?t)] 1 =
      Inr [\<lparr>name_a = ''g'', name_b = ''s'', score = 1\<rparr>]"
    by code_simp
  from t have h: "(''g'', ?t) \<in> set [(''g'', ?t)] \<and> (''s'', ?t) \<in> set [(''s'', ?t)]
      \<and> 5 \<le> length (tokens ?t) \<and> (1 :: real) \<le> 1"
    by simp
  note inst = identical_long_texts_reported [of ?t "[(''g'', ?t)]" "[(''s'', ?t)]" 1 "''g''" "''s''"]
  from inst t have sc: "similarity_score ?t ?t 5 4 = Inr 1" by simp
  from inst h
  have "\<exists>results. similarity_report [(''g'', ?t)] [(''s'', ?t)] 1 = Inr results
            \<and> \<lparr>name_a = ''g'', name_b = ''s'', score = 1\<rparr> \<in> set results"
    by blast
  with t e sc show ?thesis by simp
qed

text \<open>
  Two equal texts of two tokens: the score is 0, and at threshold 1 the report is empty.
\<close>

theorem identical_short_texts_counterexample:
  "strip ''hello world'' = ''hello world''
   \<and> tokens ''hello world'' = [''hello'', ''world'']
   \<and> similarity_score ''hello world'' ''hello world'' 5 4 = Inr 0
   \<and> similarity_report [(''g'', ''hello world'')] [(''s'', ''hello world'')] 1 = Inr []"
  by code_simp

end
